theory Spec2Isabelle
  imports Complex_Main "HOL-Library.Sublist" "HOL-Library.Multiset"
begin

section \<open>Data model (src/types/diff.ts)\<close>

text \<open>
  A \<open>JsonValue\<close> is a string, a number, a boolean, null, an object or an array.
  Numbers are the finite values \<open>JSON.parse\<close> produces, read as rationals (equality on
  them is the SameValueZero comparison lodash uses). An object is the list of its own
  entries in the order \<open>Object.keys\<close> reports them; a JavaScript object holds each key
  once, which is the predicate \<open>wfJson\<close> below. Strings are lists of characters.

  The comparator reads \<open>leftObj[k]\<close> for keys that only the other object owns. That
  lookup follows the prototype chain, so it can return a member of \<open>Object.prototype\<close>
  where the type \<open>JsonValue\<close> promises \<open>undefined\<close>. Two further constructors stand for
  the values that enter the comparison only in this way: \<open>JFunction name\<close> is the function
  \<open>Object.prototype[name]\<close> (such as \<open>toString\<close>), and \<open>JObjectPrototype\<close> is the object
  \<open>Object.prototype\<close> itself, which the accessor \<open>__proto__\<close> returns. Neither occurs in
  a parsed document.
\<close>

datatype JsonValue =
    JString string
  | JNumber rat
  | JBoolean bool
  | JNull
  | JObject "(string \<times> JsonValue) list"
  | JArray "JsonValue list"
  | JFunction string
  | JObjectPrototype

type_synonym JsonObject = "(string \<times> JsonValue) list"
type_synonym JsonArray = "JsonValue list"

datatype DiffType = ADDED | REMOVED | MODIFIED | UNCHANGED | SPACER

datatype BracketType = BracketObject | BracketArray

text \<open>
  An optional field of \<open>DiffNode\<close> is an \<open>option\<close>. The field \<open>children\<close> of the
  interface is never written by any function of the repository and is left out.
\<close>

record DiffNode =
  type :: DiffType
  key :: "string option"
  path :: string
  leftValue :: "JsonValue option"
  rightValue :: "JsonValue option"
  indent :: nat
  isCollapsible :: bool
  isArrayItem :: "bool option"
  arrayIndex :: "nat option"
  isClosingBracket :: "bool option"
  bracketType :: "BracketType option"

record DiffResult =
  leftNodes :: "DiffNode list"
  rightNodes :: "DiffNode list"

fun wfJson :: "JsonValue \<Rightarrow> bool" where
  "wfJson (JObject obj) = (distinct (map fst obj) \<and> list_all (\<lambda>(k, v). wfJson v) obj)"
| "wfJson (JArray arr) = list_all wfJson arr"
| "wfJson v = True"

section \<open>Helpers of src/utils/jsonDiff.ts\<close>

text \<open>
  \<open>getValueType\<close>: lodash's \<open>isPlainObject\<close> holds of a parsed object and of
  \<open>Object.prototype\<close> (an object whose prototype is \<open>null\<close>), \<open>isArray\<close> of an array;
  everything else, a function included, is a primitive.
\<close>

datatype ValueType = TypeObject | TypeArray | TypePrimitive

fun getValueType :: "JsonValue \<Rightarrow> ValueType" where
  "getValueType (JObject obj) = TypeObject"
| "getValueType JObjectPrototype = TypeObject"
| "getValueType (JArray arr) = TypeArray"
| "getValueType v = TypePrimitive"

text \<open>
  \<open>Object.keys(obj)\<close>: the own enumerable keys; \<open>Object.prototype\<close> has none. The function
  is only applied to values of type \<open>object\<close>.
\<close>

fun objectKeys :: "JsonValue \<Rightarrow> string list" where
  "objectKeys (JObject obj) = map fst obj"
| "objectKeys v = []"

text \<open>
  The names of the function-valued properties of \<open>Object.prototype\<close>. Its one other
  property is the accessor \<open>__proto__\<close>, which returns the prototype of the object it is
  read on: \<open>Object.prototype\<close> for a parsed object, \<open>null\<close> for \<open>Object.prototype\<close> itself.
\<close>

definition prototypeFunctionNames :: "string list" where
  "prototypeFunctionNames =
     [''constructor'', ''hasOwnProperty'', ''isPrototypeOf'', ''propertyIsEnumerable'',
      ''toLocaleString'', ''toString'', ''valueOf'', ''__defineGetter__'',
      ''__defineSetter__'', ''__lookupGetter__'', ''__lookupSetter__'']"

text \<open>
  \<open>obj[k]\<close>: the object's own entry if it has one, else the member of \<open>Object.prototype\<close>
  of that name, else \<open>undefined\<close>, written \<open>None\<close>.
\<close>

fun getProp :: "JsonValue \<Rightarrow> string \<Rightarrow> JsonValue option" where
  "getProp (JObject obj) k =
     (case map_of obj k of
        Some v \<Rightarrow> Some v
      | None \<Rightarrow>
          if k = ''__proto__'' then Some JObjectPrototype
          else if k \<in> set prototypeFunctionNames then Some (JFunction k)
          else None)"
| "getProp JObjectPrototype k =
     (if k = ''__proto__'' then Some JNull
      else if k \<in> set prototypeFunctionNames then Some (JFunction k)
      else None)"
| "getProp v k = None"

text \<open>\<open>arr.length\<close> and \<open>arr[i]\<close> (\<open>undefined\<close> past the end) of an array.\<close>

fun arrayLength :: "JsonValue \<Rightarrow> nat" where
  "arrayLength (JArray arr) = length arr"
| "arrayLength v = 0"

fun getItem :: "JsonValue \<Rightarrow> nat \<Rightarrow> JsonValue option" where
  "getItem (JArray arr) i = (if i < length arr then Some (arr ! i) else None)"
| "getItem v i = None"

text \<open>
  \<open>getAlignedKeys\<close>: the two \<open>for\<close> statements of the source, each pushing onto \<open>allKeys\<close>.
\<close>

definition getAlignedKeys :: "JsonValue option \<Rightarrow> JsonValue option \<Rightarrow> string list" where
  "getAlignedKeys leftObj rightObj =
     (let leftKeys = (case leftObj of Some obj \<Rightarrow> objectKeys obj | None \<Rightarrow> []);
          rightKeys = (case rightObj of Some obj \<Rightarrow> objectKeys obj | None \<Rightarrow> []);
          leftKeySet = set leftKeys;
          allKeys = foldl (\<lambda>acc k. acc @ [k]) [] leftKeys
      in foldl (\<lambda>acc k. if k \<notin> leftKeySet then acc @ [k] else acc) allKeys rightKeys)"

text \<open>
  \<open>isEqual\<close> is lodash's deep equality: objects are equal when they own the same number
  of keys and every key of the first is owned by the second with an equal value (key order
  is irrelevant); arrays are equal when they have the same length and equal items at every
  index; primitives are equal when they are the same value. \<open>Object.prototype\<close> owns no
  enumerable key, so it is equal to itself and to an empty object; a function is equal to
  itself only.
\<close>

function (sequential) isEqual :: "JsonValue \<Rightarrow> JsonValue \<Rightarrow> bool" where
  "isEqual (JObject a) (JObject b) =
     (length a = length b \<and>
      list_all (\<lambda>(k, v). case map_of b k of Some w \<Rightarrow> isEqual v w | None \<Rightarrow> False) a)"
| "isEqual (JArray a) (JArray b) =
     (length a = length b \<and> list_all (\<lambda>(v, w). isEqual v w) (zip a b))"
| "isEqual (JString a) (JString b) = (a = b)"
| "isEqual (JNumber a) (JNumber b) = (a = b)"
| "isEqual (JBoolean a) (JBoolean b) = (a = b)"
| "isEqual JNull JNull = True"
| "isEqual (JFunction a) (JFunction b) = (a = b)"
| "isEqual JObjectPrototype JObjectPrototype = True"
| "isEqual JObjectPrototype (JObject b) = (b = [])"
| "isEqual (JObject a) JObjectPrototype = (a = [])"
| "isEqual v w = False"
  by pat_completeness auto

termination isEqual
proof (relation "measure (\<lambda>(v, w). size v)")
  show "wf (measure (\<lambda>(v, w). size v))"
    by simp
next
  fix a b :: JsonObject and x :: "string \<times> JsonValue" and k v w
  assume "x \<in> set a" and "(k, v) = x"
  then have "(k, v) \<in> set a"
    by simp
  then have "size v < Suc (size_list (size_prod (\<lambda>x. 0) size) a)"
    by (induction a) auto
  then show "((v, w), (JObject a, JObject b)) \<in> measure (\<lambda>(v, w). size v)"
    by simp
next
  fix a b :: JsonArray and x :: "JsonValue \<times> JsonValue" and v w
  assume "x \<in> set (zip a b)" and "(v, w) = x"
  then have "v \<in> set a"
    by (auto dest: set_zip_leftD)
  then have "size v < Suc (size_list size a)"
    by (induction a) auto
  then show "((v, w), (JArray a, JArray b)) \<in> measure (\<lambda>(v, w). size v)"
    by simp
qed

text \<open>\<open>String(i)\<close> for an array index: its decimal digits.\<close>

fun stringOfNat :: "nat \<Rightarrow> string" where
  "stringOfNat n =
     (if n < 10 then [''0123456789'' ! n]
      else stringOfNat (n div 10) @ [''0123456789'' ! (n mod 10)])"

definition objectChildPath :: "string \<Rightarrow> string \<Rightarrow> string" where
  "objectChildPath pth k = (if pth \<noteq> [] then pth @ ''.'' @ k else k)"

definition arrayChildPath :: "string \<Rightarrow> nat \<Rightarrow> string" where
  "arrayChildPath pth i = pth @ ''['' @ stringOfNat i @ '']''"

definition createSpacer :: "nat \<Rightarrow> DiffNode" where
  "createSpacer ind =
     \<lparr>type = SPACER, key = None, path = [], leftValue = None, rightValue = None,
      indent = ind, isCollapsible = False, isArrayItem = None, arrayIndex = None,
      isClosingBracket = None, bracketType = None\<rparr>"

text \<open>
  \<open>createNodesForValue\<close>: the opening node, the nodes of every child in key order
  (index order for an array), the closing node; one node for a primitive. The loop over
  \<open>Object.keys(obj)\<close> that reads \<open>obj[k]\<close> visits the entries of the object in their order
  (an own entry is found before the prototype is consulted); for \<open>Object.prototype\<close> the
  loop has nothing to visit.
\<close>

function (sequential, domintros) createNodesForValue ::
  "JsonValue \<Rightarrow> string \<Rightarrow> nat \<Rightarrow> string option \<Rightarrow> DiffType \<Rightarrow> bool \<Rightarrow> nat option \<Rightarrow> DiffNode list"
where
  "createNodesForValue (JObject obj) pth ind ky diffType isItem idx =
     [\<lparr>type = diffType, key = ky, path = pth,
       leftValue = (if diffType = REMOVED then Some (JString ''{'') else None),
       rightValue = (if diffType = ADDED then Some (JString ''{'') else None),
       indent = ind, isCollapsible = True, isArrayItem = Some isItem, arrayIndex = idx,
       isClosingBracket = None, bracketType = None\<rparr>]
     @ concat (map (\<lambda>(k, v).
         createNodesForValue v (objectChildPath pth k) (ind + 1) (Some k) diffType False None) obj)
     @ [\<lparr>type = diffType, key = None, path = pth,
         leftValue = (if diffType = REMOVED then Some (JString ''}'') else None),
         rightValue = (if diffType = ADDED then Some (JString ''}'') else None),
         indent = ind, isCollapsible = False, isArrayItem = None, arrayIndex = None,
         isClosingBracket = Some True, bracketType = Some BracketObject\<rparr>]"
| "createNodesForValue JObjectPrototype pth ind ky diffType isItem idx =
     [\<lparr>type = diffType, key = ky, path = pth,
       leftValue = (if diffType = REMOVED then Some (JString ''{'') else None),
       rightValue = (if diffType = ADDED then Some (JString ''{'') else None),
       indent = ind, isCollapsible = True, isArrayItem = Some isItem, arrayIndex = idx,
       isClosingBracket = None, bracketType = None\<rparr>]
     @ [\<lparr>type = diffType, key = None, path = pth,
         leftValue = (if diffType = REMOVED then Some (JString ''}'') else None),
         rightValue = (if diffType = ADDED then Some (JString ''}'') else None),
         indent = ind, isCollapsible = False, isArrayItem = None, arrayIndex = None,
         isClosingBracket = Some True, bracketType = Some BracketObject\<rparr>]"
| "createNodesForValue (JArray arr) pth ind ky diffType isItem idx =
     [\<lparr>type = diffType, key = ky, path = pth,
       leftValue = (if diffType = REMOVED then Some (JString ''['') else None),
       rightValue = (if diffType = ADDED then Some (JString ''['') else None),
       indent = ind, isCollapsible = True, isArrayItem = Some isItem, arrayIndex = idx,
       isClosingBracket = None, bracketType = None\<rparr>]
     @ concat (map (\<lambda>i.
         createNodesForValue (arr ! i) (arrayChildPath pth i) (ind + 1) None diffType True (Some i))
         [0..<length arr])
     @ [\<lparr>type = diffType, key = None, path = pth,
         leftValue = (if diffType = REMOVED then Some (JString '']'') else None),
         rightValue = (if diffType = ADDED then Some (JString '']'') else None),
         indent = ind, isCollapsible = False, isArrayItem = None, arrayIndex = None,
         isClosingBracket = Some True, bracketType = Some BracketArray\<rparr>]"
| "createNodesForValue v pth ind ky diffType isItem idx =
     [\<lparr>type = diffType, key = ky, path = pth,
       leftValue = (if diffType = REMOVED \<or> diffType = MODIFIED \<or> diffType = UNCHANGED
                    then Some v else None),
       rightValue = (if diffType = ADDED \<or> diffType = MODIFIED \<or> diffType = UNCHANGED
                     then Some v else None),
       indent = ind, isCollapsible = False, isArrayItem = Some isItem, arrayIndex = idx,
       isClosingBracket = None, bracketType = None\<rparr>]"
  by pat_completeness auto

text \<open>
  Every call of \<open>createNodesForValue\<close> returns: by induction on the value, each
  recursive call being on a child.
\<close>

lemma createNodesForValue_terminates:
  "createNodesForValue_dom (v, pth, ind, ky, diffType, isItem, idx)"
proof (induction v arbitrary: pth ind ky diffType isItem idx)
  case (JObject obj)
  show ?case
    by (rule createNodesForValue.domintros) (use JObject in fastforce)
next
  case (JArray arr)
  show ?case
    by (rule createNodesForValue.domintros) (use JArray in simp)
qed (rule createNodesForValue.domintros)+

termination createNodesForValue
proof (rule allI)
  fix x
  show "createNodesForValue_dom x"
    by (cases x rule: prod_cases7) (simp add: createNodesForValue_terminates)
qed

text \<open>
  The two \<open>while\<close> statements of the type-mismatch case: spacers are pushed until the list
  has \<open>maxLen\<close> nodes.
\<close>

function (domintros) padSpacers :: "nat \<Rightarrow> nat \<Rightarrow> DiffNode list \<Rightarrow> DiffNode list" where
  "padSpacers maxLen ind nodes =
     (if length nodes < maxLen then padSpacers maxLen ind (nodes @ [createSpacer ind])
      else nodes)"
  by pat_completeness auto

text \<open>The loop runs \<open>maxLen - length nodes\<close> times.\<close>

lemma padSpacers_terminates: "padSpacers_dom (maxLen, ind, nodes)"
proof (induction "maxLen - length nodes" arbitrary: nodes)
  case 0
  show ?case
    by (rule padSpacers.domintros) (use 0 in simp)
next
  case (Suc n)
  show ?case
    by (rule padSpacers.domintros) (use Suc in simp)
qed

termination padSpacers
proof (rule allI)
  fix x
  show "padSpacers_dom x"
    by (cases x rule: prod_cases3) (simp add: padSpacers_terminates)
qed

declare padSpacers.simps [simp del]

section \<open>The comparator (src/utils/jsonDiff.ts, compareJson)\<close>

text \<open>
  The source's cases in their order: only left, only right, both (deep-equal, different
  types, two objects, two arrays, two primitives), and the fall-through when both values
  are \<open>undefined\<close>. Each \<open>push(...childResult.leftNodes)\<close> of a loop appends the child's
  nodes, so a loop over the children is the concatenation of the children's results. The
  bounds a JavaScript engine puts on the number of arguments of one call of \<open>push\<close> and
  on the depth of the recursion are not part of this model, in which lists and the
  recursion are unbounded.
\<close>

function (sequential, domintros) compareJson ::
  "JsonValue option \<Rightarrow> JsonValue option \<Rightarrow> string \<Rightarrow> nat \<Rightarrow> string option \<Rightarrow> bool
     \<Rightarrow> nat option \<Rightarrow> DiffResult"
where
  "compareJson (Some l) None pth ind ky isItem idx =
     (let nodes = createNodesForValue l pth ind ky REMOVED isItem idx
      in \<lparr>leftNodes = nodes, rightNodes = map (\<lambda>i. createSpacer ind) [0..<length nodes]\<rparr>)"
| "compareJson None (Some r) pth ind ky isItem idx =
     (let nodes = createNodesForValue r pth ind ky ADDED isItem idx
      in \<lparr>leftNodes = map (\<lambda>i. createSpacer ind) [0..<length nodes], rightNodes = nodes\<rparr>)"
| "compareJson (Some l) (Some r) pth ind ky isItem idx =
     (if isEqual l r then
        (let nodes = createNodesForValue l pth ind ky UNCHANGED isItem idx
         in \<lparr>leftNodes = nodes, rightNodes = map (\<lambda>n. n) nodes\<rparr>)
      else if getValueType l \<noteq> getValueType r then
        (let leftNodesList = createNodesForValue l pth ind ky MODIFIED isItem idx;
             rightNodesList = createNodesForValue r pth ind ky MODIFIED isItem idx;
             maxLen = max (length leftNodesList) (length rightNodesList)
         in \<lparr>leftNodes = padSpacers maxLen ind leftNodesList,
             rightNodes = padSpacers maxLen ind rightNodesList\<rparr>)
      else if getValueType l = TypeObject \<and> getValueType r = TypeObject then
        (let openNode =
               \<lparr>type = UNCHANGED, key = ky, path = pth,
                leftValue = Some (JString ''{''), rightValue = Some (JString ''{''),
                indent = ind, isCollapsible = True, isArrayItem = Some isItem,
                arrayIndex = idx, isClosingBracket = None, bracketType = None\<rparr>;
             alignedKeys = getAlignedKeys (Some l) (Some r);
             childResults = map (\<lambda>k.
               compareJson (getProp l k) (getProp r k)
                 (objectChildPath pth k) (ind + 1) (Some k) False None) alignedKeys;
             closeNode =
               \<lparr>type = UNCHANGED, key = None, path = pth,
                leftValue = Some (JString ''}''), rightValue = Some (JString ''}''),
                indent = ind, isCollapsible = False, isArrayItem = None,
                arrayIndex = None, isClosingBracket = Some True,
                bracketType = Some BracketObject\<rparr>
         in \<lparr>leftNodes = [openNode] @ concat (map leftNodes childResults) @ [closeNode],
             rightNodes = [openNode] @ concat (map rightNodes childResults) @ [closeNode]\<rparr>)
      else if getValueType l = TypeArray \<and> getValueType r = TypeArray then
        (let openNode =
               \<lparr>type = UNCHANGED, key = ky, path = pth,
                leftValue = Some (JString ''[''), rightValue = Some (JString ''[''),
                indent = ind, isCollapsible = True, isArrayItem = Some isItem,
                arrayIndex = idx, isClosingBracket = None, bracketType = None\<rparr>;
             maxLen = max (arrayLength l) (arrayLength r);
             childResults = map (\<lambda>i.
               compareJson (getItem l i) (getItem r i)
                 (arrayChildPath pth i) (ind + 1) None True (Some i)) [0..<maxLen];
             closeNode =
               \<lparr>type = UNCHANGED, key = None, path = pth,
                leftValue = Some (JString '']''), rightValue = Some (JString '']''),
                indent = ind, isCollapsible = False, isArrayItem = None,
                arrayIndex = None, isClosingBracket = Some True,
                bracketType = Some BracketArray\<rparr>
         in \<lparr>leftNodes = [openNode] @ concat (map leftNodes childResults) @ [closeNode],
             rightNodes = [openNode] @ concat (map rightNodes childResults) @ [closeNode]\<rparr>)
      else
        \<lparr>leftNodes =
           [\<lparr>type = MODIFIED, key = ky, path = pth, leftValue = Some l, rightValue = None,
             indent = ind, isCollapsible = False, isArrayItem = Some isItem,
             arrayIndex = idx, isClosingBracket = None, bracketType = None\<rparr>],
         rightNodes =
           [\<lparr>type = MODIFIED, key = ky, path = pth, leftValue = None, rightValue = Some r,
             indent = ind, isCollapsible = False, isArrayItem = Some isItem,
             arrayIndex = idx, isClosingBracket = None, bracketType = None\<rparr>]\<rparr>)"
| "compareJson None None pth ind ky isItem idx = \<lparr>leftNodes = [], rightNodes = []\<rparr>"
  by pat_completeness auto

text \<open>
  Every call of \<open>compareJson\<close> returns: each recursive call is on a child of an object
  or of an array, on a member of \<open>Object.prototype\<close> (a function, \<open>null\<close>, or
  \<open>Object.prototype\<close> itself, which has no children of its own to descend into), or on
  \<open>undefined\<close>. The summed size of the two values (\<open>undefined\<close> counting zero)
  decreases: a child is smaller than a parsed object or an array, and two values that are
  both \<open>Object.prototype\<close> are deep-equal and not descended into.
\<close>

lemma compareJson_terminates: "compareJson_dom (l, r, pth, ind, ky, isItem, idx)"
proof (induction "(case l of None \<Rightarrow> 0 | Some v \<Rightarrow> size v) + (case r of None \<Rightarrow> 0 | Some v \<Rightarrow> size v)"
    arbitrary: l r pth ind ky isItem idx rule: less_induct)
  case less
  have entry: "(case getProp (JObject obj) k of None \<Rightarrow> 0 | Some v \<Rightarrow> size v) < size (JObject obj)"
    for obj k
  proof (cases "map_of obj k")
    case (Some v)
    then have "(k, v) \<in> set obj"
      by (simp add: map_of_SomeD)
    then have "size v < Suc (size_list (size_prod (\<lambda>x. 0) size) obj)"
      by (induction obj) auto
    with Some show ?thesis
      by simp
  qed simp
  have proto: "(case getProp JObjectPrototype k of None \<Rightarrow> 0 | Some v \<Rightarrow> size v) = 0" for k
    by simp
  have member: "(case getProp v k of None \<Rightarrow> 0 | Some w \<Rightarrow> size w) \<le> size v \<and>
      (v \<noteq> JObjectPrototype \<longrightarrow> (case getProp v k of None \<Rightarrow> 0 | Some w \<Rightarrow> size w) < size v)"
    if "getValueType v = TypeObject" for v k
  proof (cases v)
    case (JObject obj)
    with entry [of obj k] show ?thesis
      by simp
  next
    case JObjectPrototype
    with proto [of k] show ?thesis
      by simp
  qed (use that in simp_all)
  have item: "(case getItem v i of None \<Rightarrow> 0 | Some w \<Rightarrow> size w) < size v"
    if "getValueType v = TypeArray" for v i
  proof (cases v)
    case (JArray arr)
    have "\<forall>w \<in> set arr. size w < Suc (size_list size arr)"
      by (induction arr) auto
    with JArray show ?thesis
      by simp
  qed (use that in simp_all)
  show ?case
  proof (cases l)
    case None
    then show ?thesis
      by (cases r) (auto intro: compareJson.domintros)
  next
    case l: (Some lv)
    show ?thesis
    proof (cases r)
      case None
      with l show ?thesis
        by (auto intro: compareJson.domintros)
    next
      case r: (Some rv)
      show ?thesis
        unfolding l r
      proof (rule compareJson.domintros)
        fix k
        assume ne: "\<not> isEqual lv rv"
          and types: "getValueType lv = TypeObject" "getValueType rv = TypeObject"
        from ne have "lv \<noteq> JObjectPrototype \<or> rv \<noteq> JObjectPrototype"
          by auto
        with member [OF types(1), of k] member [OF types(2), of k]
        have "(case getProp lv k of None \<Rightarrow> 0 | Some v \<Rightarrow> size v) +
            (case getProp rv k of None \<Rightarrow> 0 | Some v \<Rightarrow> size v) < size lv + size rv"
          by auto
        then show "compareJson_dom (getProp lv k, getProp rv k, objectChildPath pth k,
            Suc ind, Some k, False, None)"
          using l r by (intro less.hyps) simp
      next
        fix i
        assume types: "getValueType lv = TypeArray" "getValueType rv = TypeArray"
        then show "compareJson_dom (getItem lv i, getItem rv i, arrayChildPath pth i,
            Suc ind, None, True, Some i)"
          using item [OF types(1), of i] item [OF types(2), of i] l r
          by (intro less.hyps) simp
      qed
    qed
  qed
qed

termination compareJson
proof (rule allI)
  fix x
  show "compareJson_dom x"
    by (cases x rule: prod_cases7) (simp add: compareJson_terminates)
qed

section \<open>The collapse filter (src/components/DiffViewer.tsx, filterNodes)\<close>

text \<open>
  \<open>collapsedPaths\<close> is a JavaScript \<open>Set\<close>: its members in insertion order, each once.
  The inner loop stops at the first collapsed path the node's path extends; the outer loop
  pushes every node that is not skipped.
\<close>

definition startsWith :: "string \<Rightarrow> string \<Rightarrow> bool" where
  "startsWith s p = (take (length p) s = p)"

fun shouldSkip :: "string list \<Rightarrow> DiffNode \<Rightarrow> bool" where
  "shouldSkip [] node = False"
| "shouldSkip (collapsedPath # rest) node =
     (if startsWith (path node) (collapsedPath @ ''.'') \<or>
         startsWith (path node) (collapsedPath @ ''['')
      then True
      else shouldSkip rest node)"

definition filterStep :: "string list \<Rightarrow> DiffNode list \<Rightarrow> DiffNode \<Rightarrow> DiffNode list" where
  "filterStep collapsedPaths result node =
     (if shouldSkip collapsedPaths node then result
      else if isClosingBracket node = Some True \<and> path node \<in> set collapsedPaths
      then result
      else result @ [node])"

definition filterNodes :: "string list \<Rightarrow> DiffNode list \<Rightarrow> DiffNode list" where
  "filterNodes collapsedPaths nodes = foldl (filterStep collapsedPaths) [] nodes"

section \<open>Notions of the specification\<close>

text \<open>
  \<open>sizeOf\<close> counts the lines of a value: one per scalar, one per object or array
  opening, one per closing bracket (\<open>Object.prototype\<close> counts as an object without
  entries, a function as a scalar).
\<close>

fun sizeOf :: "JsonValue \<Rightarrow> nat" where
  "sizeOf (JObject obj) = 1 + sum_list (map (\<lambda>(k, v). sizeOf v) obj) + 1"
| "sizeOf JObjectPrototype = 1 + 1"
| "sizeOf (JArray arr) = 1 + sum_list (map sizeOf arr) + 1"
| "sizeOf v = 1"

text \<open>
  The shared opening and closing nodes \<open>openNode\<close> and \<open>closeNode\<close> of the two recursive
  cases of \<open>compareJson\<close>, named for use in the statements below.
\<close>

definition openNode :: "string \<Rightarrow> string \<Rightarrow> nat \<Rightarrow> string option \<Rightarrow> bool \<Rightarrow> nat option \<Rightarrow> DiffNode" where
  "openNode mark pth ind ky isItem idx =
     \<lparr>type = UNCHANGED, key = ky, path = pth,
      leftValue = Some (JString mark), rightValue = Some (JString mark),
      indent = ind, isCollapsible = True, isArrayItem = Some isItem,
      arrayIndex = idx, isClosingBracket = None, bracketType = None\<rparr>"

definition closeNode :: "string \<Rightarrow> BracketType \<Rightarrow> string \<Rightarrow> nat \<Rightarrow> DiffNode" where
  "closeNode mark bt pth ind =
     \<lparr>type = UNCHANGED, key = None, path = pth,
      leftValue = Some (JString mark), rightValue = Some (JString mark),
      indent = ind, isCollapsible = False, isArrayItem = None,
      arrayIndex = None, isClosingBracket = Some True, bracketType = Some bt\<rparr>"

text \<open>
  The collapse filter in the specification's words: a path is a strict descendant of a
  collapsed path when it extends it at a \<open>.\<close> or \<open>[\<close> boundary; a node is dropped when
  its path is a strict descendant of some collapsed path, or when it is a closing bracket
  whose own path is collapsed.
\<close>

definition isStrictDescendant :: "string \<Rightarrow> string \<Rightarrow> bool" where
  "isStrictDescendant p c = (prefix (c @ ''.'') p \<or> prefix (c @ ''['') p)"

definition isDropped :: "string list \<Rightarrow> DiffNode \<Rightarrow> bool" where
  "isDropped collapsedPaths node =
     ((\<exists>c \<in> set collapsedPaths. isStrictDescendant (path node) c) \<or>
      (isClosingBracket node = Some True \<and> path node \<in> set collapsedPaths))"

text \<open>
  The key sequence a node sequence shows at one nesting depth: the keys of the nodes of
  that indent that carry a key, in their order. The rows of an object's entries are the
  keyed rows one level below the object's own indent.
\<close>

definition keysAtIndent :: "nat \<Rightarrow> DiffNode list \<Rightarrow> string list" where
  "keysAtIndent j nodes = map (\<lambda>n. the (key n)) (filter (\<lambda>n. indent n = j \<and> key n \<noteq> None) nodes)"

text \<open>
  The key sequence the rows of two aligned node sequences show at one nesting depth: for
  each row, the key of its left node at that depth, or else the key of its right node.
\<close>

definition rowKeysAtIndent :: "nat \<Rightarrow> DiffNode list \<Rightarrow> DiffNode list \<Rightarrow> string list" where
  "rowKeysAtIndent j ls rs =
     concat (map (\<lambda>(a, b). if keysAtIndent j [a] \<noteq> [] then keysAtIndent j [a]
       else keysAtIndent j [b]) (zip ls rs))"

text \<open>
  The values a structural node shows: an opening node one of the markers \<open>{\<close> and \<open>[\<close>,
  a closing node the bracket of its \<open>bracketType\<close>. \<open>structuralNodeOk\<close> says of a node:
  if it opens an object or array, it is not a closing bracket, and when it is \<open>REMOVED\<close>
  it carries the marker on the left and nothing on the right, when it is \<open>ADDED\<close> the
  marker on the right and nothing on the left; if it is flagged as a closing bracket, it
  is not collapsible, it has a \<open>bracketType\<close>, and when it is \<open>REMOVED\<close> it carries the
  bracket of that type on the left and nothing on the right, when it is \<open>ADDED\<close> the
  bracket on the right and nothing on the left.
\<close>

definition isOpenMarker :: "JsonValue option \<Rightarrow> bool" where
  "isOpenMarker v = (v = Some (JString ''{'') \<or> v = Some (JString ''[''))"

fun closeMarker :: "BracketType \<Rightarrow> JsonValue" where
  "closeMarker BracketObject = JString ''}''"
| "closeMarker BracketArray = JString '']''"

definition structuralNodeOk :: "DiffNode \<Rightarrow> bool" where
  "structuralNodeOk n =
     ((isCollapsible n \<longrightarrow>
         isClosingBracket n = None \<and> bracketType n = None \<and>
         (type n = REMOVED \<longrightarrow> isOpenMarker (leftValue n) \<and> rightValue n = None) \<and>
         (type n = ADDED \<longrightarrow> isOpenMarker (rightValue n) \<and> leftValue n = None)) \<and>
      (isClosingBracket n = Some True \<longrightarrow>
         \<not> isCollapsible n \<and>
         (case bracketType n of
            None \<Rightarrow> False
          | Some bt \<Rightarrow>
              (type n = REMOVED \<longrightarrow> leftValue n = Some (closeMarker bt) \<and> rightValue n = None) \<and>
              (type n = ADDED \<longrightarrow> rightValue n = Some (closeMarker bt) \<and> leftValue n = None))))"

text \<open>
  That every object or array a node sequence opens is closed by a flagged closing
  bracket is read off the sequence with a stack: an opening node is pushed, and a node
  flagged \<open>isClosingBracket\<close> must find on top of the stack an opening node of its own
  path and indent, which it pops, and must have a \<open>bracketType\<close>; every other node is
  passed over. \<open>bracketStack st nodes\<close> is the stack after the last node, or \<open>None\<close> if
  a closing bracket found no partner. A sequence is well bracketed when it takes the empty
  stack to the empty stack: no opening node is then left without its closing bracket.
\<close>

fun bracketStack :: "DiffNode list \<Rightarrow> DiffNode list \<Rightarrow> DiffNode list option" where
  "bracketStack st [] = Some st"
| "bracketStack st (n # ns) =
     (if isCollapsible n then bracketStack (n # st) ns
      else if isClosingBracket n = Some True then
        (case st of
           [] \<Rightarrow> None
         | opener # rest \<Rightarrow>
             if path n = path opener \<and> indent n = indent opener \<and> bracketType n \<noteq> None
             then bracketStack rest ns
             else None)
      else bracketStack st ns)"

text \<open>
  The lines of a value in the specification's words, each with the value it shows: an
  object shows \<open>{\<close>, the lines of its entries in their order, and \<open>}\<close>; an array shows
  \<open>[\<close>, the lines of its items, and \<open>]\<close>; a primitive shows itself. \<open>leafValues\<close> are the
  primitives among them, and a leaf node is a node that neither opens an object or array
  nor is a closing bracket.
\<close>

fun lineValues :: "JsonValue \<Rightarrow> JsonValue list" where
  "lineValues (JObject obj) =
     [JString ''{''] @ concat (map (\<lambda>(k, v). lineValues v) obj) @ [JString ''}'']"
| "lineValues JObjectPrototype = [JString ''{'', JString ''}'']"
| "lineValues (JArray arr) = [JString ''[''] @ concat (map lineValues arr) @ [JString '']'']"
| "lineValues v = [v]"

fun leafValues :: "JsonValue \<Rightarrow> JsonValue list" where
  "leafValues (JObject obj) = concat (map (\<lambda>(k, v). leafValues v) obj)"
| "leafValues JObjectPrototype = []"
| "leafValues (JArray arr) = concat (map leafValues arr)"
| "leafValues v = [v]"

definition isLeafNode :: "DiffNode \<Rightarrow> bool" where
  "isLeafNode n = (\<not> isCollapsible n \<and> isClosingBracket n \<noteq> Some True)"

text \<open>
  Swapping the two arguments of a comparison turns what was removed into what is added:
  \<open>swapRoles\<close> exchanges \<open>REMOVED\<close> and \<open>ADDED\<close> and keeps the other classifications.
\<close>

fun swapRoles :: "DiffType \<Rightarrow> DiffType" where
  "swapRoles REMOVED = ADDED"
| "swapRoles ADDED = REMOVED"
| "swapRoles t = t"

text \<open>
  Two values agree on key order when, at every pair of corresponding objects (objects
  reached from the two values by the same keys and indices), the key sequence of one is a
  prefix of the other's: the aligned key order is then the same whichever object is on the
  left.
\<close>

function (sequential) sameKeyOrder :: "JsonValue \<Rightarrow> JsonValue \<Rightarrow> bool" where
  "sameKeyOrder (JObject a) (JObject b) =
     ((prefix (objectKeys (JObject a)) (objectKeys (JObject b)) \<or>
       prefix (objectKeys (JObject b)) (objectKeys (JObject a))) \<and>
      list_all (\<lambda>(k, v). case map_of b k of Some w \<Rightarrow> sameKeyOrder v w | None \<Rightarrow> True) a)"
| "sameKeyOrder (JArray a) (JArray b) = list_all (\<lambda>(v, w). sameKeyOrder v w) (zip a b)"
| "sameKeyOrder v w = True"
  by pat_completeness auto

termination sameKeyOrder
proof (relation "measure (\<lambda>(v, w). size v)")
  show "wf (measure (\<lambda>(v, w). size v))"
    by simp
next
  fix a b :: JsonObject and x :: "string \<times> JsonValue" and k v w
  assume "x \<in> set a" and "(k, v) = x"
  then have "(k, v) \<in> set a"
    by simp
  then have "size v < Suc (size_list (size_prod (\<lambda>x. 0) size) a)"
    by (induction a) auto
  then show "((v, w), (JObject a, JObject b)) \<in> measure (\<lambda>(v, w). size v)"
    by simp
next
  fix a b :: JsonArray and x :: "JsonValue \<times> JsonValue" and v w
  assume "x \<in> set (zip a b)" and "(v, w) = x"
  then have "v \<in> set a"
    by (auto dest: set_zip_leftD)
  then have "size v < Suc (size_list size a)"
    by (induction a) auto
  then show "((v, w), (JArray a, JArray b)) \<in> measure (\<lambda>(v, w). size v)"
    by simp
qed

section \<open>Basic facts\<close>

subsection \<open>The padding loop, the aligned keys and the size of a materialized subtree\<close>

lemma padSpacers_eq:
  "padSpacers maxLen ind nodes = nodes @ replicate (maxLen - length nodes) (createSpacer ind)"
proof (induction maxLen ind nodes rule: padSpacers.induct)
  case (1 maxLen ind nodes)
  show ?case
  proof (cases "length nodes < maxLen")
    case True
    then have "maxLen - length nodes = Suc (maxLen - Suc (length nodes))"
      by simp
    with True 1 show ?thesis
      by (subst padSpacers.simps) (simp add: replicate_app_Cons_same)
  next
    case False
    then show ?thesis
      by (subst padSpacers.simps) simp
  qed
qed

lemma length_padSpacers: "length (padSpacers maxLen ind nodes) = max maxLen (length nodes)"
  by (simp add: padSpacers_eq)

lemma foldl_push: "foldl (\<lambda>acc k. if P k then acc @ [k] else acc) acc ks = acc @ filter P ks"
  by (induction ks arbitrary: acc) simp_all

lemma foldl_push_all: "foldl (\<lambda>acc k. acc @ [k]) acc ks = acc @ ks"
  by (induction ks arbitrary: acc) simp_all

lemma getAlignedKeys_eq:
  "getAlignedKeys (Some l) (Some r) =
     objectKeys l @ filter (\<lambda>k. k \<notin> set (objectKeys l)) (objectKeys r)"
  by (simp add: getAlignedKeys_def Let_def foldl_push foldl_push_all)

lemma getValueType_object:
  "getValueType v = TypeObject \<longleftrightarrow> (\<exists>obj. v = JObject obj) \<or> v = JObjectPrototype"
  by (cases v) simp_all

lemma getValueType_array: "getValueType v = TypeArray \<longleftrightarrow> (\<exists>arr. v = JArray arr)"
  by (cases v) simp_all

lemma length_createNodesForValue:
  "length (createNodesForValue v pth ind ky diffType isItem idx) = sizeOf v"
proof (induction v pth ind ky diffType isItem idx rule: createNodesForValue.induct)
  case (1 obj pth ind ky diffType isItem idx)
  have "sum_list (map (\<lambda>x. length (case x of (k, v) \<Rightarrow>
          createNodesForValue v (objectChildPath pth k) (ind + 1) (Some k) diffType False None)) obj)
      = sum_list (map (\<lambda>(k, v). sizeOf v) obj)"
    using 1 by (intro arg_cong [where f = sum_list] map_cong) auto
  then show ?case
    by (simp add: length_concat comp_def)
next
  case (3 arr pth ind ky diffType isItem idx)
  have "map (\<lambda>i. length (createNodesForValue (arr ! i) (arrayChildPath pth i) (ind + 1) None
          diffType True (Some i))) [0..<length arr]
      = map (\<lambda>i. sizeOf (arr ! i)) [0..<length arr]"
    using 3 by (intro map_cong) auto
  also have "\<dots> = map sizeOf arr"
    by (intro nth_equalityI) simp_all
  finally have "sum_list (map (\<lambda>i. length (createNodesForValue (arr ! i) (arrayChildPath pth i)
          (ind + 1) None diffType True (Some i))) [0..<length arr]) = sum_list (map sizeOf arr)"
    by simp
  then show ?case
    by (simp add: length_concat comp_def)
qed simp_all

subsection \<open>The cases of the comparator\<close>

lemma compareJson_equal:
  "isEqual l r \<Longrightarrow> compareJson (Some l) (Some r) pth ind ky isItem idx =
     \<lparr>leftNodes = createNodesForValue l pth ind ky UNCHANGED isItem idx,
      rightNodes = createNodesForValue l pth ind ky UNCHANGED isItem idx\<rparr>"
  by (simp add: Let_def)

lemma compareJson_mismatch:
  "\<not> isEqual l r \<Longrightarrow> getValueType l \<noteq> getValueType r \<Longrightarrow>
   compareJson (Some l) (Some r) pth ind ky isItem idx =
     \<lparr>leftNodes = padSpacers (max (sizeOf l) (sizeOf r)) ind
        (createNodesForValue l pth ind ky MODIFIED isItem idx),
      rightNodes = padSpacers (max (sizeOf l) (sizeOf r)) ind
        (createNodesForValue r pth ind ky MODIFIED isItem idx)\<rparr>"
  by (simp add: Let_def length_createNodesForValue)

lemma compareJson_objects:
  "\<not> isEqual l r \<Longrightarrow> getValueType l = TypeObject \<Longrightarrow> getValueType r = TypeObject \<Longrightarrow>
   compareJson (Some l) (Some r) pth ind ky isItem idx =
     \<lparr>leftNodes = openNode ''{'' pth ind ky isItem idx #
        concat (map (\<lambda>k. leftNodes (compareJson (getProp l k) (getProp r k)
          (objectChildPath pth k) (ind + 1) (Some k) False None))
          (getAlignedKeys (Some l) (Some r)))
        @ [closeNode ''}'' BracketObject pth ind],
      rightNodes = openNode ''{'' pth ind ky isItem idx #
        concat (map (\<lambda>k. rightNodes (compareJson (getProp l k) (getProp r k)
          (objectChildPath pth k) (ind + 1) (Some k) False None))
          (getAlignedKeys (Some l) (Some r)))
        @ [closeNode ''}'' BracketObject pth ind]\<rparr>"
  by (simp add: Let_def comp_def openNode_def closeNode_def)

lemma compareJson_arrays:
  "\<not> isEqual l r \<Longrightarrow> getValueType l = TypeArray \<Longrightarrow> getValueType r = TypeArray \<Longrightarrow>
   compareJson (Some l) (Some r) pth ind ky isItem idx =
     \<lparr>leftNodes = openNode ''['' pth ind ky isItem idx #
        concat (map (\<lambda>i. leftNodes (compareJson (getItem l i) (getItem r i)
          (arrayChildPath pth i) (ind + 1) None True (Some i)))
          [0..<max (arrayLength l) (arrayLength r)])
        @ [closeNode '']'' BracketArray pth ind],
      rightNodes = openNode ''['' pth ind ky isItem idx #
        concat (map (\<lambda>i. rightNodes (compareJson (getItem l i) (getItem r i)
          (arrayChildPath pth i) (ind + 1) None True (Some i)))
          [0..<max (arrayLength l) (arrayLength r)])
        @ [closeNode '']'' BracketArray pth ind]\<rparr>"
  by (simp add: Let_def comp_def openNode_def closeNode_def)

lemma compareJson_primitives:
  "\<not> isEqual l r \<Longrightarrow> getValueType l = TypePrimitive \<Longrightarrow> getValueType r = TypePrimitive \<Longrightarrow>
   compareJson (Some l) (Some r) pth ind ky isItem idx =
     \<lparr>leftNodes =
        [\<lparr>type = MODIFIED, key = ky, path = pth, leftValue = Some l, rightValue = None,
          indent = ind, isCollapsible = False, isArrayItem = Some isItem,
          arrayIndex = idx, isClosingBracket = None, bracketType = None\<rparr>],
      rightNodes =
        [\<lparr>type = MODIFIED, key = ky, path = pth, leftValue = None, rightValue = Some r,
          indent = ind, isCollapsible = False, isArrayItem = Some isItem,
          arrayIndex = idx, isClosingBracket = None, bracketType = None\<rparr>]\<rparr>"
  by simp

lemma compareJson_cases_induct [case_names onlyLeft onlyRight equal mismatch objects arrays primitives neither]:
  fixes P :: "JsonValue option \<Rightarrow> JsonValue option \<Rightarrow> string \<Rightarrow> nat \<Rightarrow> string option \<Rightarrow> bool
    \<Rightarrow> nat option \<Rightarrow> bool"
  assumes "\<And>l pth ind ky isItem idx. P (Some l) None pth ind ky isItem idx"
    and "\<And>r pth ind ky isItem idx. P None (Some r) pth ind ky isItem idx"
    and "\<And>l r pth ind ky isItem idx. isEqual l r \<Longrightarrow> P (Some l) (Some r) pth ind ky isItem idx"
    and "\<And>l r pth ind ky isItem idx. \<not> isEqual l r \<Longrightarrow> getValueType l \<noteq> getValueType r \<Longrightarrow>
      P (Some l) (Some r) pth ind ky isItem idx"
    and "\<And>l r pth ind ky isItem idx.
      \<not> isEqual l r \<Longrightarrow> getValueType l = TypeObject \<Longrightarrow> getValueType r = TypeObject \<Longrightarrow>
      (\<And>k. k \<in> set (getAlignedKeys (Some l) (Some r)) \<Longrightarrow>
        P (getProp l k) (getProp r k) (objectChildPath pth k) (ind + 1) (Some k) False None) \<Longrightarrow>
      P (Some l) (Some r) pth ind ky isItem idx"
    and "\<And>l r pth ind ky isItem idx.
      \<not> isEqual l r \<Longrightarrow> getValueType l = TypeArray \<Longrightarrow> getValueType r = TypeArray \<Longrightarrow>
      (\<And>i. i < max (arrayLength l) (arrayLength r) \<Longrightarrow>
        P (getItem l i) (getItem r i) (arrayChildPath pth i) (ind + 1) None True (Some i)) \<Longrightarrow>
      P (Some l) (Some r) pth ind ky isItem idx"
    and "\<And>l r pth ind ky isItem idx. \<not> isEqual l r \<Longrightarrow> getValueType l = TypePrimitive \<Longrightarrow>
      getValueType r = TypePrimitive \<Longrightarrow> P (Some l) (Some r) pth ind ky isItem idx"
    and "\<And>pth ind ky isItem idx. P None None pth ind ky isItem idx"
  shows "P l r pth ind ky isItem idx"
proof (induction l r pth ind ky isItem idx rule: compareJson.induct)
  case (3 l r pth ind ky isItem idx)
  show ?case
  proof (cases "isEqual l r")
    case True
    then show ?thesis by (rule assms(3))
  next
    case ne: False
    show ?thesis
    proof (cases "getValueType l = getValueType r")
      case False
      with ne show ?thesis by (rule assms(4))
    next
      case same: True
      show ?thesis
      proof (cases "getValueType l")
        case TypeObject
        with same have r: "getValueType r = TypeObject"
          by simp
        from ne TypeObject r show ?thesis
        proof (rule assms(5))
          fix k assume "k \<in> set (getAlignedKeys (Some l) (Some r))"
          then show "P (getProp l k) (getProp r k) (objectChildPath pth k) (ind + 1) (Some k) False None"
            using "3.IH"(1) [OF ne _ _ refl refl] same TypeObject r by simp
        qed
      next
        case TypeArray
        with same have r: "getValueType r = TypeArray"
          by simp
        from ne TypeArray r show ?thesis
        proof (rule assms(6))
          fix i assume "i < max (arrayLength l) (arrayLength r)"
          then show "P (getItem l i) (getItem r i) (arrayChildPath pth i) (ind + 1) None True (Some i)"
            using "3.IH"(2) [OF ne _ _ _ refl refl] same TypeArray r by simp
        qed
      next
        case TypePrimitive
        with same have r: "getValueType r = TypePrimitive"
          by simp
        from ne TypePrimitive r show ?thesis
          by (rule assms(7))
      qed
    qed
  qed
qed (rule assms)+

declare compareJson.simps(3) [simp del]

subsection \<open>Alignment of the two sides\<close>

lemma length_concat_cong:
  "(\<And>x. x \<in> set xs \<Longrightarrow> length (f x) = length (g x)) \<Longrightarrow>
   length (concat (map f xs)) = length (concat (map g xs))"
  by (induction xs) simp_all

lemma length_compareJson_sides:
  "length (leftNodes (compareJson l r pth ind ky isItem idx)) =
   length (rightNodes (compareJson l r pth ind ky isItem idx))"
proof (induction l r pth ind ky isItem idx rule: compareJson_cases_induct)
  case (equal l r pth ind ky isItem idx)
  then show ?case
    by (simp add: compareJson_equal)
next
  case (mismatch l r pth ind ky isItem idx)
  then show ?case
    by (simp add: compareJson_mismatch length_padSpacers length_createNodesForValue)
next
  case (objects l r pth ind ky isItem idx)
  from objects(4) have "length (concat (map (\<lambda>k. leftNodes (compareJson (getProp l k)
        (getProp r k) (objectChildPath pth k) (ind + 1) (Some k) False None))
        (getAlignedKeys (Some l) (Some r)))) =
      length (concat (map (\<lambda>k. rightNodes (compareJson (getProp l k)
        (getProp r k) (objectChildPath pth k) (ind + 1) (Some k) False None))
        (getAlignedKeys (Some l) (Some r))))"
    by (rule length_concat_cong)
  with objects(1-3) show ?case
    by (simp add: compareJson_objects)
next
  case (arrays l r pth ind ky isItem idx)
  have "length (concat (map (\<lambda>i. leftNodes (compareJson (getItem l i)
        (getItem r i) (arrayChildPath pth i) (ind + 1) None True (Some i)))
        [0..<max (arrayLength l) (arrayLength r)])) =
      length (concat (map (\<lambda>i. rightNodes (compareJson (getItem l i)
        (getItem r i) (arrayChildPath pth i) (ind + 1) None True (Some i)))
        [0..<max (arrayLength l) (arrayLength r)]))"
    by (rule length_concat_cong) (use arrays(4) in simp)
  with arrays(1-3) show ?case
    by (simp add: compareJson_arrays)
next
  case (primitives l r pth ind ky isItem idx)
  then show ?case
    by (simp add: compareJson_primitives)
qed (simp_all add: Let_def)

subsection \<open>The collapse filter\<close>

lemma startsWith_prefix: "startsWith s p = prefix p s"
  by (auto simp: startsWith_def prefix_def) (metis append_eq_conv_conj)

lemma shouldSkip_iff:
  "shouldSkip collapsedPaths node = (\<exists>c \<in> set collapsedPaths. isStrictDescendant (path node) c)"
  by (induction collapsedPaths) (auto simp: startsWith_prefix isStrictDescendant_def)

lemma foldl_filterStep:
  "foldl (filterStep collapsedPaths) acc nodes =
     acc @ filter (\<lambda>n. \<not> isDropped collapsedPaths n) nodes"
  by (induction nodes arbitrary: acc)
    (simp_all add: filterStep_def shouldSkip_iff isDropped_def)

subsection \<open>Materialized subtrees and deep equality of a value with itself\<close>

lemma createNodesForValue_sides:
  "n \<in> set (createNodesForValue v pth ind ky diffType isItem idx) \<Longrightarrow>
   type n = diffType \<and>
   (diffType = REMOVED \<longrightarrow> leftValue n \<noteq> None \<and> rightValue n = None) \<and>
   (diffType = ADDED \<longrightarrow> rightValue n \<noteq> None \<and> leftValue n = None)"
  by (induction v pth ind ky diffType isItem idx rule: createNodesForValue.induct) auto

lemma zip_same_iff: "(a, b) \<in> set (zip xs xs) \<longleftrightarrow> a \<in> set xs \<and> a = b"
  by (induction xs) auto

lemma isEqual_refl: "wfJson v \<Longrightarrow> isEqual v v"
proof (induction v)
  case (JObject obj)
  have "case map_of obj k of Some w \<Rightarrow> isEqual v w | None \<Rightarrow> False" if "(k, v) \<in> set obj" for k v
  proof -
    from that JObject.prems have "map_of obj k = Some v"
      by simp
    moreover from that JObject.prems have "wfJson v"
      by (auto simp: list_all_iff)
    with that JObject.IH have "isEqual v v"
      by fastforce
    ultimately show ?thesis
      by simp
  qed
  then show ?case
    by (auto simp: list_all_iff)
next
  case (JArray arr)
  then show ?case
    by (auto simp: list_all_iff zip_same_iff)
qed simp_all

lemma createNodesForValue_nonempty:
  "createNodesForValue v pth ind ky diffType isItem idx \<noteq> []"
  by (cases v) simp_all

lemma leftNodes_empty_iff:
  "leftNodes (compareJson l r pth ind ky isItem idx) = [] \<longleftrightarrow> l = None \<and> r = None"
proof (induction l r pth ind ky isItem idx rule: compareJson_cases_induct)
  case (mismatch l r pth ind ky isItem idx)
  then show ?case
    by (simp add: compareJson_mismatch padSpacers_eq createNodesForValue_nonempty)
qed (simp_all add: Let_def compareJson_equal compareJson_objects compareJson_arrays
    compareJson_primitives createNodesForValue_nonempty)

subsection \<open>Keys shown at one nesting depth\<close>

lemma keysAtIndent_append [simp]:
  "keysAtIndent j (xs @ ys) = keysAtIndent j xs @ keysAtIndent j ys"
  by (simp add: keysAtIndent_def)

lemma keysAtIndent_Cons:
  "keysAtIndent j (n # ns) =
     (if indent n = j \<and> key n \<noteq> None then [the (key n)] else []) @ keysAtIndent j ns"
  by (simp add: keysAtIndent_def)

lemma keysAtIndent_Nil [simp]: "keysAtIndent j [] = []"
  by (simp add: keysAtIndent_def)

lemma keysAtIndent_concat:
  "keysAtIndent j (concat (map f xs)) = concat (map (\<lambda>x. keysAtIndent j (f x)) xs)"
  by (induction xs) simp_all

lemma keysAtIndent_deeper:
  "(\<And>n. n \<in> set nodes \<Longrightarrow> j < indent n) \<Longrightarrow> keysAtIndent j nodes = []"
  by (auto simp: keysAtIndent_def filter_empty_conv)

lemma keysAtIndent_keyless:
  "(\<And>n. n \<in> set nodes \<Longrightarrow> key n = None) \<Longrightarrow> keysAtIndent j nodes = []"
  by (auto simp: keysAtIndent_def filter_empty_conv)

lemma createNodesForValue_indent:
  "n \<in> set (createNodesForValue v pth ind ky diffType isItem idx) \<Longrightarrow> ind \<le> indent n"
  by (induction v pth ind ky diffType isItem idx rule: createNodesForValue.induct) fastforce+

lemma padSpacers_set:
  "n \<in> set (padSpacers maxLen ind nodes) \<Longrightarrow> n \<in> set nodes \<or> n = createSpacer ind"
  by (auto simp: padSpacers_eq)

lemma compareJson_indent:
  "(n \<in> set (leftNodes (compareJson l r pth ind ky isItem idx)) \<longrightarrow> ind \<le> indent n) \<and>
   (n \<in> set (rightNodes (compareJson l r pth ind ky isItem idx)) \<longrightarrow> ind \<le> indent n)"
proof (induction l r pth ind ky isItem idx rule: compareJson_cases_induct)
  case (onlyLeft l pth ind ky isItem idx)
  then show ?case
    by (auto simp: Let_def createSpacer_def dest: createNodesForValue_indent)
next
  case (onlyRight r pth ind ky isItem idx)
  then show ?case
    by (auto simp: Let_def createSpacer_def dest: createNodesForValue_indent)
next
  case (equal l r pth ind ky isItem idx)
  then show ?case
    by (auto simp: compareJson_equal dest: createNodesForValue_indent)
next
  case (mismatch l r pth ind ky isItem idx)
  then show ?case
    by (auto simp: compareJson_mismatch createSpacer_def
        dest!: padSpacers_set dest: createNodesForValue_indent)
next
  case (objects l r pth ind ky isItem idx)
  then show ?case
    by (fastforce simp: compareJson_objects openNode_def closeNode_def)
next
  case (arrays l r pth ind ky isItem idx)
  then show ?case
    by (fastforce simp: compareJson_arrays openNode_def closeNode_def)
next
  case (primitives l r pth ind ky isItem idx)
  then show ?case
    by (simp add: compareJson_primitives)
next
  case (neither pth ind ky isItem idx)
  then show ?case
    by simp
qed


lemma keysAtIndent_createNodesForValue:
  "keysAtIndent j (createNodesForValue v pth j ky diffType isItem idx) =
     (case ky of None \<Rightarrow> [] | Some k \<Rightarrow> [k])"
proof (cases v)
  case (JObject obj)
  have "keysAtIndent j (concat (map (\<lambda>(k, v).
      createNodesForValue v (objectChildPath pth k) (j + 1) (Some k) diffType False None) obj)) = []"
    by (rule keysAtIndent_deeper) (auto dest: createNodesForValue_indent)
  with JObject show ?thesis
    by (simp add: keysAtIndent_Cons split: option.split)
next
  case (JArray arr)
  have "keysAtIndent j (concat (map (\<lambda>i.
      createNodesForValue (arr ! i) (arrayChildPath pth i) (j + 1) None diffType True (Some i))
      [0..<length arr])) = []"
    by (rule keysAtIndent_deeper) (auto dest: createNodesForValue_indent)
  with JArray show ?thesis
    by (simp add: keysAtIndent_Cons split: option.split)
qed (simp_all add: keysAtIndent_Cons split: option.split)

lemma keysAtIndent_spacers [simp]: "keysAtIndent j (replicate m (createSpacer ind)) = []"
  by (rule keysAtIndent_keyless) (simp add: createSpacer_def)

lemma keysAtIndent_compareJson:
  "keysAtIndent j (leftNodes (compareJson l r pth j ky isItem idx)) =
     (if l = None then [] else case ky of None \<Rightarrow> [] | Some k \<Rightarrow> [k]) \<and>
   keysAtIndent j (rightNodes (compareJson l r pth j ky isItem idx)) =
     (if r = None then [] else case ky of None \<Rightarrow> [] | Some k \<Rightarrow> [k])"
proof (induction l r pth j ky isItem idx rule: compareJson_cases_induct)
  case (onlyLeft l pth j ky isItem idx)
  then show ?case
    by (simp add: Let_def keysAtIndent_createNodesForValue map_replicate_const)
next
  case (onlyRight r pth j ky isItem idx)
  then show ?case
    by (simp add: Let_def keysAtIndent_createNodesForValue map_replicate_const)
next
  case (equal l r pth j ky isItem idx)
  then show ?case
    by (simp add: compareJson_equal keysAtIndent_createNodesForValue)
next
  case (mismatch l r pth j ky isItem idx)
  then show ?case
    by (simp add: compareJson_mismatch padSpacers_eq keysAtIndent_createNodesForValue)
next
  case (objects l r pth j ky isItem idx)
  have "keysAtIndent j (concat (map (\<lambda>k. leftNodes (compareJson (getProp l k)
      (getProp r k) (objectChildPath pth k) (j + 1) (Some k) False None))
      (getAlignedKeys (Some l) (Some r)))) = []"
    by (rule keysAtIndent_deeper) (use compareJson_indent in fastforce)
  moreover have "keysAtIndent j (concat (map (\<lambda>k. rightNodes (compareJson (getProp l k)
      (getProp r k) (objectChildPath pth k) (j + 1) (Some k) False None))
      (getAlignedKeys (Some l) (Some r)))) = []"
    by (rule keysAtIndent_deeper) (use compareJson_indent in fastforce)
  ultimately show ?case
    using objects(1-3)
    by (simp add: compareJson_objects keysAtIndent_Cons openNode_def closeNode_def
        split: option.split)
next
  case (arrays l r pth j ky isItem idx)
  have "keysAtIndent j (concat (map (\<lambda>i. leftNodes (compareJson (getItem l i)
      (getItem r i) (arrayChildPath pth i) (j + 1) None True (Some i)))
      [0..<max (arrayLength l) (arrayLength r)])) = []"
    by (rule keysAtIndent_deeper) (use compareJson_indent in fastforce)
  moreover have "keysAtIndent j (concat (map (\<lambda>i. rightNodes (compareJson (getItem l i)
      (getItem r i) (arrayChildPath pth i) (j + 1) None True (Some i)))
      [0..<max (arrayLength l) (arrayLength r)])) = []"
    by (rule keysAtIndent_deeper) (use compareJson_indent in fastforce)
  ultimately show ?case
    using arrays(1-3)
    by (simp add: compareJson_arrays keysAtIndent_Cons openNode_def closeNode_def
        split: option.split)
next
  case (primitives l r pth j ky isItem idx)
  then show ?case
    by (simp add: compareJson_primitives keysAtIndent_Cons split: option.split)
next
  case (neither pth j ky isItem idx)
  then show ?case
    by simp
qed

lemma concat_map_singleton_if:
  "concat (map (\<lambda>k. if P k then [] else [k]) ks) = filter (\<lambda>k. \<not> P k) ks"
  by (induction ks) simp_all

lemma getProp_own: "k \<in> set (objectKeys v) \<Longrightarrow> getProp v k \<noteq> None"
proof (cases v)
  case (JObject obj)
  assume "k \<in> set (objectKeys v)"
  with JObject have "map_of obj k \<noteq> None"
    by (simp add: map_of_eq_None_iff)
  with JObject show ?thesis
    by (auto split: option.split)
qed simp_all

lemma isEqual_objects_same_keys:
  assumes "isEqual (JObject a) (JObject b)" "distinct (map fst a)" "distinct (map fst b)"
  shows "set (map fst a) = set (map fst b)"
proof -
  from assms(1) have len: "length a = length b"
    and all: "\<forall>(k, v) \<in> set a. map_of b k \<noteq> None"
    by (auto simp: list_all_iff split: option.splits)
  from all have sub: "set (map fst a) \<subseteq> set (map fst b)"
    by (auto simp: map_of_eq_None_iff)
  have "card (set (map fst a)) = length (map fst a)"
    "card (set (map fst b)) = length (map fst b)"
    using assms(2,3) by (simp_all only: distinct_card)
  with len have "card (set (map fst a)) = card (set (map fst b))"
    by simp
  with sub show ?thesis
    by (simp add: card_subset_eq)
qed

lemma isEqual_same_keys:
  assumes "isEqual l r" "getValueType l = TypeObject" "getValueType r = TypeObject"
    and "wfJson l" "wfJson r"
  shows "set (objectKeys l) = set (objectKeys r)"
proof -
  from assms(2) consider a where "l = JObject a" | "l = JObjectPrototype"
    by (auto simp: getValueType_object)
  then show ?thesis
  proof cases
    case 1
    from assms(3) consider b where "r = JObject b" | "r = JObjectPrototype"
      by (auto simp: getValueType_object)
    then show ?thesis
    proof cases
      case b: 1
      from assms(1,4,5) have "set (map fst a) = set (map fst b)"
        unfolding 1 b by (intro isEqual_objects_same_keys) simp_all
      then show ?thesis
        by (simp add: 1 b)
    next
      case 2
      with 1 assms(1) show ?thesis
        by simp
    qed
  next
    case 2
    from assms(3) consider b where "r = JObject b" | "r = JObjectPrototype"
      by (auto simp: getValueType_object)
    then show ?thesis
      using 2 assms(1) by cases simp_all
  qed
qed

lemma keysAtIndent_object_entries:
  assumes "getValueType v = TypeObject"
  shows "keysAtIndent (ind + 1) (createNodesForValue v pth ind ky diffType isItem idx) =
     objectKeys v"
proof -
  from assms consider obj where "v = JObject obj" | "v = JObjectPrototype"
    by (auto simp: getValueType_object)
  then show ?thesis
  proof cases
    case 1
    have "concat (map (\<lambda>x. keysAtIndent (Suc ind) (case x of (k, v) \<Rightarrow>
        createNodesForValue v (objectChildPath pth k) (Suc ind) (Some k) diffType False None)) obj) =
        map fst obj"
      by (induction obj) (auto simp: keysAtIndent_createNodesForValue)
    then show ?thesis
      by (simp add: 1 keysAtIndent_Cons keysAtIndent_concat)
  next
    case 2
    then show ?thesis
      by (simp add: keysAtIndent_Cons)
  qed
qed

subsection \<open>Keys shown by the rows of two aligned sides\<close>

lemma rowKeysAtIndent_Nil [simp]: "rowKeysAtIndent j [] rs = []" "rowKeysAtIndent j ls [] = []"
  by (simp_all add: rowKeysAtIndent_def)

lemma rowKeysAtIndent_Cons:
  "rowKeysAtIndent j (a # ls) (b # rs) =
     (if keysAtIndent j [a] \<noteq> [] then keysAtIndent j [a] else keysAtIndent j [b])
     @ rowKeysAtIndent j ls rs"
  by (simp add: rowKeysAtIndent_def)

lemma rowKeysAtIndent_append:
  "length ls = length rs \<Longrightarrow>
   rowKeysAtIndent j (ls @ ls') (rs @ rs') = rowKeysAtIndent j ls rs @ rowKeysAtIndent j ls' rs'"
  by (simp add: rowKeysAtIndent_def)

lemma rowKeysAtIndent_concat:
  "(\<And>k. k \<in> set ks \<Longrightarrow> length (f k) = length (g k)) \<Longrightarrow>
   rowKeysAtIndent j (concat (map f ks)) (concat (map g ks)) =
     concat (map (\<lambda>k. rowKeysAtIndent j (f k) (g k)) ks)"
  by (induction ks) (simp_all add: rowKeysAtIndent_append)

lemma rowKeysAtIndent_same: "rowKeysAtIndent j ns ns = keysAtIndent j ns"
  by (induction ns) (simp_all add: rowKeysAtIndent_Cons keysAtIndent_Cons)

lemma keysAtIndent_empty_iff:
  "keysAtIndent j ns = [] \<longleftrightarrow> (\<forall>n \<in> set ns. indent n = j \<longrightarrow> key n = None)"
  by (auto simp: keysAtIndent_def filter_empty_conv)

lemma rowKeysAtIndent_silent:
  assumes "keysAtIndent j ls = []" "keysAtIndent j rs = []"
  shows "rowKeysAtIndent j ls rs = []"
proof -
  have "keysAtIndent j [a] = [] \<and> keysAtIndent j [b] = []" if "(a, b) \<in> set (zip ls rs)" for a b
  proof -
    from that have "a \<in> set ls" "b \<in> set rs"
      by (auto dest: set_zip_leftD set_zip_rightD)
    with assms show ?thesis
      by (simp add: keysAtIndent_empty_iff)
  qed
  then show ?thesis
    by (auto simp: rowKeysAtIndent_def)
qed

lemma rowKeysAtIndent_head:
  assumes "length ls = length rs" "ls \<noteq> []"
    and "keysAtIndent j ls = keysAtIndent j [hd ls]"
    and "keysAtIndent j rs = keysAtIndent j [hd rs]"
  shows "rowKeysAtIndent j ls rs =
     (if keysAtIndent j [hd ls] \<noteq> [] then keysAtIndent j [hd ls] else keysAtIndent j [hd rs])"
proof -
  from assms(1,2) obtain a as b bs where ls: "ls = a # as" and rs: "rs = b # bs"
    by (cases ls; cases rs) auto
  from assms(3) ls have "keysAtIndent j as = []"
    by (simp add: keysAtIndent_Cons)
  moreover from assms(4) rs have "keysAtIndent j bs = []"
    by (simp add: keysAtIndent_Cons)
  ultimately have "rowKeysAtIndent j as bs = []"
    by (rule rowKeysAtIndent_silent)
  with ls rs show ?thesis
    by (simp add: rowKeysAtIndent_Cons)
qed

lemma hd_createNodesForValue:
  "key (hd (createNodesForValue v pth ind ky diffType isItem idx)) = ky \<and>
   indent (hd (createNodesForValue v pth ind ky diffType isItem idx)) = ind"
  by (cases v) simp_all

lemma hd_padSpacers: "nodes \<noteq> [] \<Longrightarrow> hd (padSpacers maxLen ind nodes) = hd nodes"
  by (simp add: padSpacers_eq)

lemma hd_compareJson:
  "(l \<noteq> None \<longrightarrow>
      key (hd (leftNodes (compareJson l r pth ind ky isItem idx))) = ky \<and>
      indent (hd (leftNodes (compareJson l r pth ind ky isItem idx))) = ind) \<and>
   (r \<noteq> None \<longrightarrow>
      key (hd (rightNodes (compareJson l r pth ind ky isItem idx))) = ky \<and>
      indent (hd (rightNodes (compareJson l r pth ind ky isItem idx))) = ind)"
proof (induction l r pth ind ky isItem idx rule: compareJson_cases_induct)
  case (mismatch l r pth ind ky isItem idx)
  then show ?case
    by (simp add: compareJson_mismatch hd_padSpacers createNodesForValue_nonempty
        hd_createNodesForValue)
next
  case (objects l r pth ind ky isItem idx)
  then show ?case
    by (simp add: compareJson_objects openNode_def)
next
  case (arrays l r pth ind ky isItem idx)
  then show ?case
    by (simp add: compareJson_arrays openNode_def)
qed (simp_all add: Let_def compareJson_equal compareJson_primitives hd_createNodesForValue)


lemma keysAtIndent_hd_compareJson:
  assumes "l \<noteq> None \<or> r \<noteq> None"
  shows "keysAtIndent j (leftNodes (compareJson l r pth j ky isItem idx)) =
     keysAtIndent j [hd (leftNodes (compareJson l r pth j ky isItem idx))]"
    and "keysAtIndent j (rightNodes (compareJson l r pth j ky isItem idx)) =
     keysAtIndent j [hd (rightNodes (compareJson l r pth j ky isItem idx))]"
proof -
  let ?res = "compareJson l r pth j ky isItem idx"
  from assms have ne: "leftNodes ?res \<noteq> []"
    by (simp add: leftNodes_empty_iff)
  then have ne': "rightNodes ?res \<noteq> []"
    using length_compareJson_sides [of l r pth j ky isItem idx] by auto
  show "keysAtIndent j (leftNodes ?res) = keysAtIndent j [hd (leftNodes ?res)]"
  proof (cases "leftNodes ?res")
    case Nil
    with ne show ?thesis
      by simp
  next
    case (Cons a as)
    show ?thesis
    proof (cases l)
      case None
      then have "keysAtIndent j (leftNodes ?res) = []"
        by (simp add: keysAtIndent_compareJson)
      with Cons show ?thesis
        by (simp add: keysAtIndent_Cons)
    next
      case (Some v)
      then have "keysAtIndent j (leftNodes ?res) = (case ky of None \<Rightarrow> [] | Some k \<Rightarrow> [k])"
        by (simp add: keysAtIndent_compareJson)
      also have "\<dots> = keysAtIndent j [hd (leftNodes ?res)]"
        using hd_compareJson [of l r pth j ky isItem idx] Some
        by (simp add: keysAtIndent_Cons split: option.split)
      finally show ?thesis .
    qed
  qed
  show "keysAtIndent j (rightNodes ?res) = keysAtIndent j [hd (rightNodes ?res)]"
  proof (cases "rightNodes ?res")
    case Nil
    with ne' show ?thesis
      by simp
  next
    case (Cons a as)
    show ?thesis
    proof (cases r)
      case None
      then have "keysAtIndent j (rightNodes ?res) = []"
        by (simp add: keysAtIndent_compareJson)
      with Cons show ?thesis
        by (simp add: keysAtIndent_Cons)
    next
      case (Some v)
      then have "keysAtIndent j (rightNodes ?res) = (case ky of None \<Rightarrow> [] | Some k \<Rightarrow> [k])"
        by (simp add: keysAtIndent_compareJson)
      also have "\<dots> = keysAtIndent j [hd (rightNodes ?res)]"
        using hd_compareJson [of l r pth j ky isItem idx] Some
        by (simp add: keysAtIndent_Cons split: option.split)
      finally show ?thesis .
    qed
  qed
qed

lemma rowKeysAtIndent_compareJson:
  assumes "l \<noteq> None \<or> r \<noteq> None"
  shows "rowKeysAtIndent j (leftNodes (compareJson l r pth j ky isItem idx))
      (rightNodes (compareJson l r pth j ky isItem idx)) =
     (case ky of None \<Rightarrow> [] | Some k \<Rightarrow> [k])"
proof -
  let ?res = "compareJson l r pth j ky isItem idx"
  from assms have ne: "leftNodes ?res \<noteq> []"
    by (simp add: leftNodes_empty_iff)
  have "rowKeysAtIndent j (leftNodes ?res) (rightNodes ?res) =
      (if keysAtIndent j [hd (leftNodes ?res)] \<noteq> [] then keysAtIndent j [hd (leftNodes ?res)]
       else keysAtIndent j [hd (rightNodes ?res)])"
    using length_compareJson_sides ne keysAtIndent_hd_compareJson [OF assms]
    by (rule rowKeysAtIndent_head)
  also have "\<dots> = (if keysAtIndent j (leftNodes ?res) \<noteq> [] then keysAtIndent j (leftNodes ?res)
       else keysAtIndent j (rightNodes ?res))"
    by (simp only: keysAtIndent_hd_compareJson [OF assms, symmetric])
  also have "\<dots> = (case ky of None \<Rightarrow> [] | Some k \<Rightarrow> [k])"
    using assms by (auto simp: keysAtIndent_compareJson split: option.split)
  finally show ?thesis .
qed

lemma concat_map_singleton: "concat (map (\<lambda>k. [k]) ks) = ks"
  by (induction ks) simp_all

lemma aligned_key_present:
  "k \<in> set (getAlignedKeys (Some l) (Some r)) \<Longrightarrow>
   getProp l k \<noteq> None \<or> getProp r k \<noteq> None"
  using getProp_own [of k l] getProp_own [of k r] by (auto simp: getAlignedKeys_eq)

lemma keys_of_unequal_objects:
  assumes "\<not> isEqual l r" "getValueType l = TypeObject" "getValueType r = TypeObject"
  shows "rowKeysAtIndent (ind + 1)
      (leftNodes (compareJson (Some l) (Some r) pth ind ky isItem idx))
      (rightNodes (compareJson (Some l) (Some r) pth ind ky isItem idx)) =
     getAlignedKeys (Some l) (Some r)"
    and "keysAtIndent (ind + 1)
      (leftNodes (compareJson (Some l) (Some r) pth ind ky isItem idx)) =
     filter (\<lambda>k. getProp l k \<noteq> None) (getAlignedKeys (Some l) (Some r))"
    and "keysAtIndent (ind + 1)
      (rightNodes (compareJson (Some l) (Some r) pth ind ky isItem idx)) =
     filter (\<lambda>k. getProp r k \<noteq> None) (getAlignedKeys (Some l) (Some r))"
proof -
  let ?ks = "getAlignedKeys (Some l) (Some r)"
  let ?child = "\<lambda>k. compareJson (getProp l k) (getProp r k)
    (objectChildPath pth k) (ind + 1) (Some k) False None"
  note res = compareJson_objects [OF assms]
  have len: "length (concat (map (\<lambda>k. leftNodes (?child k)) ?ks)) =
      length (concat (map (\<lambda>k. rightNodes (?child k)) ?ks))"
    by (rule length_concat_cong) (rule length_compareJson_sides)
  have "rowKeysAtIndent (ind + 1) (concat (map (\<lambda>k. leftNodes (?child k)) ?ks))
      (concat (map (\<lambda>k. rightNodes (?child k)) ?ks)) =
      concat (map (\<lambda>k. rowKeysAtIndent (ind + 1) (leftNodes (?child k)) (rightNodes (?child k))) ?ks)"
    by (rule rowKeysAtIndent_concat) (rule length_compareJson_sides)
  also have "\<dots> = concat (map (\<lambda>k. [k]) ?ks)"
  proof (intro arg_cong [where f = concat] map_cong refl)
    fix k assume "k \<in> set ?ks"
    then have "getProp l k \<noteq> None \<or> getProp r k \<noteq> None"
      by (rule aligned_key_present)
    then show "rowKeysAtIndent (ind + 1) (leftNodes (?child k)) (rightNodes (?child k)) = [k]"
      by (simp add: rowKeysAtIndent_compareJson)
  qed
  finally have rows: "rowKeysAtIndent (ind + 1) (concat (map (\<lambda>k. leftNodes (?child k)) ?ks))
      (concat (map (\<lambda>k. rightNodes (?child k)) ?ks)) = ?ks"
    by (simp add: concat_map_singleton)
  have "rowKeysAtIndent (ind + 1)
      (concat (map (\<lambda>k. leftNodes (?child k)) ?ks) @ [closeNode ''}'' BracketObject pth ind])
      (concat (map (\<lambda>k. rightNodes (?child k)) ?ks) @ [closeNode ''}'' BracketObject pth ind]) = ?ks"
    using len rows
    by (simp add: rowKeysAtIndent_append rowKeysAtIndent_Cons keysAtIndent_Cons closeNode_def)
  then show "rowKeysAtIndent (ind + 1)
      (leftNodes (compareJson (Some l) (Some r) pth ind ky isItem idx))
      (rightNodes (compareJson (Some l) (Some r) pth ind ky isItem idx)) = ?ks"
    by (simp add: res rowKeysAtIndent_Cons keysAtIndent_Cons openNode_def)
  have "concat (map (\<lambda>k. keysAtIndent (ind + 1) (leftNodes (?child k))) ?ks) =
      concat (map (\<lambda>k. if getProp l k = None then [] else [k]) ?ks)"
    by (intro arg_cong [where f = concat] map_cong refl)
      (simp add: keysAtIndent_compareJson)
  then show "keysAtIndent (ind + 1)
      (leftNodes (compareJson (Some l) (Some r) pth ind ky isItem idx)) =
     filter (\<lambda>k. getProp l k \<noteq> None) ?ks"
    by (simp add: res keysAtIndent_Cons keysAtIndent_concat openNode_def
        closeNode_def concat_map_singleton_if)
  have "concat (map (\<lambda>k. keysAtIndent (ind + 1) (rightNodes (?child k))) ?ks) =
      concat (map (\<lambda>k. if getProp r k = None then [] else [k]) ?ks)"
    by (intro arg_cong [where f = concat] map_cong refl)
      (simp add: keysAtIndent_compareJson)
  then show "keysAtIndent (ind + 1)
      (rightNodes (compareJson (Some l) (Some r) pth ind ky isItem idx)) =
     filter (\<lambda>k. getProp r k \<noteq> None) ?ks"
    by (simp add: res keysAtIndent_Cons keysAtIndent_concat openNode_def
        closeNode_def concat_map_singleton_if)
qed

lemma keys_of_equal_objects:
  assumes "isEqual l r" "getValueType l = TypeObject" "getValueType r = TypeObject"
    and "wfJson l" "wfJson r"
  shows "rowKeysAtIndent (ind + 1)
      (leftNodes (compareJson (Some l) (Some r) pth ind ky isItem idx))
      (rightNodes (compareJson (Some l) (Some r) pth ind ky isItem idx)) =
     getAlignedKeys (Some l) (Some r)"
    and "keysAtIndent (ind + 1)
      (leftNodes (compareJson (Some l) (Some r) pth ind ky isItem idx)) =
     filter (\<lambda>k. getProp l k \<noteq> None) (getAlignedKeys (Some l) (Some r))"
    and "keysAtIndent (ind + 1)
      (rightNodes (compareJson (Some l) (Some r) pth ind ky isItem idx)) =
     filter (\<lambda>k. getProp r k \<noteq> None) (getAlignedKeys (Some l) (Some r))"
proof -
  from assms have same: "set (objectKeys l) = set (objectKeys r)"
    by (rule isEqual_same_keys)
  then have ks: "getAlignedKeys (Some l) (Some r) = objectKeys l"
    by (simp add: getAlignedKeys_eq)
  have ownl: "filter (\<lambda>k. getProp l k \<noteq> None) (objectKeys l) = objectKeys l"
    using getProp_own [of _ l] by (simp add: filter_id_conv)
  have ownr: "filter (\<lambda>k. getProp r k \<noteq> None) (objectKeys l) = objectKeys l"
    using getProp_own [of _ r] same by (simp add: filter_id_conv)
  from assms(1) have res: "compareJson (Some l) (Some r) pth ind ky isItem idx =
      \<lparr>leftNodes = createNodesForValue l pth ind ky UNCHANGED isItem idx,
       rightNodes = createNodesForValue l pth ind ky UNCHANGED isItem idx\<rparr>"
    by (rule compareJson_equal)
  show "rowKeysAtIndent (ind + 1)
      (leftNodes (compareJson (Some l) (Some r) pth ind ky isItem idx))
      (rightNodes (compareJson (Some l) (Some r) pth ind ky isItem idx)) =
     getAlignedKeys (Some l) (Some r)"
    unfolding res ks
    by (simp only: DiffResult.simps rowKeysAtIndent_same keysAtIndent_object_entries [OF assms(2)])
  show "keysAtIndent (ind + 1)
      (leftNodes (compareJson (Some l) (Some r) pth ind ky isItem idx)) =
     filter (\<lambda>k. getProp l k \<noteq> None) (getAlignedKeys (Some l) (Some r))"
    unfolding res ks ownl
    by (simp only: DiffResult.simps keysAtIndent_object_entries [OF assms(2)])
  show "keysAtIndent (ind + 1)
      (rightNodes (compareJson (Some l) (Some r) pth ind ky isItem idx)) =
     filter (\<lambda>k. getProp r k \<noteq> None) (getAlignedKeys (Some l) (Some r))"
    unfolding res ks ownr
    by (simp only: DiffResult.simps keysAtIndent_object_entries [OF assms(2)])
qed

subsection \<open>Opening and closing nodes\<close>

lemma structuralNodeOk_createNodesForValue:
  "n \<in> set (createNodesForValue v pth ind ky diffType isItem idx) \<Longrightarrow> structuralNodeOk n"
proof (induction v pth ind ky diffType isItem idx rule: createNodesForValue.induct)
  case (1 obj pth ind ky diffType isItem idx)
  then show ?case
    by auto (simp_all add: structuralNodeOk_def isOpenMarker_def)
next
  case (2 pth ind ky diffType isItem idx)
  then show ?case
    by auto (simp_all add: structuralNodeOk_def isOpenMarker_def)
next
  case (3 arr pth ind ky diffType isItem idx)
  then show ?case
    by auto (simp_all add: structuralNodeOk_def isOpenMarker_def)
qed (simp_all add: structuralNodeOk_def)

lemma structuralNodeOk_createSpacer: "structuralNodeOk (createSpacer ind)"
  by (simp add: structuralNodeOk_def createSpacer_def)

lemma structuralNodeOk_openNode: "structuralNodeOk (openNode mark pth ind ky isItem idx)"
  by (simp add: structuralNodeOk_def openNode_def)

lemma structuralNodeOk_closeNode: "structuralNodeOk (closeNode mark bt pth ind)"
  by (simp add: structuralNodeOk_def closeNode_def)

lemma structuralNodeOk_compareJson:
  "(n \<in> set (leftNodes (compareJson l r pth ind ky isItem idx)) \<longrightarrow> structuralNodeOk n) \<and>
   (n \<in> set (rightNodes (compareJson l r pth ind ky isItem idx)) \<longrightarrow> structuralNodeOk n)"
proof (induction l r pth ind ky isItem idx rule: compareJson_cases_induct)
  case (onlyLeft l pth ind ky isItem idx)
  then show ?case
    by (auto simp: Let_def structuralNodeOk_createSpacer
        dest: structuralNodeOk_createNodesForValue)
next
  case (onlyRight r pth ind ky isItem idx)
  then show ?case
    by (auto simp: Let_def structuralNodeOk_createSpacer
        dest: structuralNodeOk_createNodesForValue)
next
  case (equal l r pth ind ky isItem idx)
  then show ?case
    by (auto simp: compareJson_equal dest: structuralNodeOk_createNodesForValue)
next
  case (mismatch l r pth ind ky isItem idx)
  then show ?case
    by (auto simp: compareJson_mismatch structuralNodeOk_createSpacer
        dest!: padSpacers_set dest: structuralNodeOk_createNodesForValue)
next
  case (objects l r pth ind ky isItem idx)
  then show ?case
    by (fastforce simp: compareJson_objects structuralNodeOk_openNode structuralNodeOk_closeNode)
next
  case (arrays l r pth ind ky isItem idx)
  then show ?case
    by (fastforce simp: compareJson_arrays structuralNodeOk_openNode structuralNodeOk_closeNode)
next
  case (primitives l r pth ind ky isItem idx)
  then show ?case
    by (simp add: compareJson_primitives structuralNodeOk_def)
next
  case (neither pth ind ky isItem idx)
  then show ?case
    by simp
qed

lemma compareJson_shared_brackets:
  "\<not> isEqual l r \<Longrightarrow> getValueType l = TypeObject \<Longrightarrow> getValueType r = TypeObject \<Longrightarrow>
     hd (leftNodes (compareJson (Some l) (Some r) pth ind ky isItem idx)) =
       openNode ''{'' pth ind ky isItem idx \<and>
     hd (rightNodes (compareJson (Some l) (Some r) pth ind ky isItem idx)) =
       openNode ''{'' pth ind ky isItem idx \<and>
     last (leftNodes (compareJson (Some l) (Some r) pth ind ky isItem idx)) =
       closeNode ''}'' BracketObject pth ind \<and>
     last (rightNodes (compareJson (Some l) (Some r) pth ind ky isItem idx)) =
       closeNode ''}'' BracketObject pth ind"
  "\<not> isEqual l r \<Longrightarrow> getValueType l = TypeArray \<Longrightarrow> getValueType r = TypeArray \<Longrightarrow>
     hd (leftNodes (compareJson (Some l) (Some r) pth ind ky isItem idx)) =
       openNode ''['' pth ind ky isItem idx \<and>
     hd (rightNodes (compareJson (Some l) (Some r) pth ind ky isItem idx)) =
       openNode ''['' pth ind ky isItem idx \<and>
     last (leftNodes (compareJson (Some l) (Some r) pth ind ky isItem idx)) =
       closeNode '']'' BracketArray pth ind \<and>
     last (rightNodes (compareJson (Some l) (Some r) pth ind ky isItem idx)) =
       closeNode '']'' BracketArray pth ind"
  by (simp_all add: compareJson_objects compareJson_arrays)

subsection \<open>Every opening node is closed by a flagged closing bracket\<close>

lemma bracketStack_append:
  "bracketStack st (xs @ ys) =
     (case bracketStack st xs of None \<Rightarrow> None | Some st' \<Rightarrow> bracketStack st' ys)"
  by (induction xs arbitrary: st) (auto split: list.split)

lemma bracketStack_frame:
  "bracketStack st xs = Some st' \<Longrightarrow> bracketStack (st @ base) xs = Some (st' @ base)"
proof (induction xs arbitrary: st)
  case Nil
  then show ?case
    by simp
next
  case (Cons n ns)
  show ?case
  proof (cases "isCollapsible n")
    case True
    with Cons.prems have "bracketStack (n # st) ns = Some st'"
      by simp
    from Cons.IH [OF this] True show ?thesis
      by simp
  next
    case nc: False
    show ?thesis
    proof (cases "isClosingBracket n = Some True")
      case True
      with nc Cons.prems obtain opener rest where st: "st = opener # rest"
        and ok: "path n = path opener \<and> indent n = indent opener \<and> bracketType n \<noteq> None"
        and run: "bracketStack rest ns = Some st'"
        by (auto split: list.splits if_splits)
      from Cons.IH [OF run] nc True st ok show ?thesis
        by simp
    next
      case False
      with nc Cons.prems have "bracketStack st ns = Some st'"
        by simp
      from Cons.IH [OF this] nc False show ?thesis
        by simp
    qed
  qed
qed

lemma bracketStack_balanced:
  "bracketStack [] xs = Some [] \<Longrightarrow> bracketStack st xs = Some st"
  using bracketStack_frame [of "[]" xs "[]" st] by simp

lemma bracketStack_concat:
  "(\<And>x. x \<in> set xs \<Longrightarrow> bracketStack [] (f x) = Some []) \<Longrightarrow>
   bracketStack st (concat (map f xs)) = Some st"
  by (induction xs) (simp_all add: bracketStack_append bracketStack_balanced)

lemma bracketStack_spacers: "bracketStack st (replicate m (createSpacer ind)) = Some st"
  by (induction m) (simp_all add: createSpacer_def)

lemma bracketStack_createNodesForValue:
  "bracketStack [] (createNodesForValue v pth ind ky diffType isItem idx) = Some []"
proof (induction v pth ind ky diffType isItem idx rule: createNodesForValue.induct)
  case (1 obj pth ind ky diffType isItem idx)
  have "bracketStack st (concat (map (\<lambda>(k, v).
      createNodesForValue v (objectChildPath pth k) (ind + 1) (Some k) diffType False None) obj)) =
      Some st" for st
    by (rule bracketStack_concat) (use 1 in auto)
  then show ?case
    by (simp add: bracketStack_append)
next
  case (3 arr pth ind ky diffType isItem idx)
  have "bracketStack st (concat (map (\<lambda>i.
      createNodesForValue (arr ! i) (arrayChildPath pth i) (ind + 1) None diffType True (Some i))
      [0..<length arr])) = Some st" for st
    by (rule bracketStack_concat) (use 3 in auto)
  then show ?case
    by (simp add: bracketStack_append)
qed simp_all

lemma bracketStack_compareJson:
  "bracketStack [] (leftNodes (compareJson l r pth ind ky isItem idx)) = Some [] \<and>
   bracketStack [] (rightNodes (compareJson l r pth ind ky isItem idx)) = Some []"
proof (induction l r pth ind ky isItem idx rule: compareJson_cases_induct)
  case (onlyLeft l pth ind ky isItem idx)
  then show ?case
    by (simp add: Let_def bracketStack_createNodesForValue map_replicate_const
        bracketStack_spacers)
next
  case (onlyRight r pth ind ky isItem idx)
  then show ?case
    by (simp add: Let_def bracketStack_createNodesForValue map_replicate_const
        bracketStack_spacers)
next
  case (equal l r pth ind ky isItem idx)
  then show ?case
    by (simp add: compareJson_equal bracketStack_createNodesForValue)
next
  case (mismatch l r pth ind ky isItem idx)
  then show ?case
    by (simp add: compareJson_mismatch padSpacers_eq bracketStack_append
        bracketStack_createNodesForValue bracketStack_spacers)
next
  case (objects l r pth ind ky isItem idx)
  have "bracketStack st (concat (map (\<lambda>k. leftNodes (compareJson (getProp l k) (getProp r k)
      (objectChildPath pth k) (ind + 1) (Some k) False None))
      (getAlignedKeys (Some l) (Some r)))) = Some st" for st
    by (rule bracketStack_concat) (use objects(4) in simp)
  moreover have "bracketStack st (concat (map (\<lambda>k. rightNodes (compareJson (getProp l k) (getProp r k)
      (objectChildPath pth k) (ind + 1) (Some k) False None))
      (getAlignedKeys (Some l) (Some r)))) = Some st" for st
    by (rule bracketStack_concat) (use objects(4) in simp)
  ultimately show ?case
    using objects(1-3)
    by (simp add: compareJson_objects bracketStack_append openNode_def closeNode_def)
next
  case (arrays l r pth ind ky isItem idx)
  have "bracketStack st (concat (map (\<lambda>i. leftNodes (compareJson (getItem l i) (getItem r i)
      (arrayChildPath pth i) (ind + 1) None True (Some i)))
      [0..<max (arrayLength l) (arrayLength r)])) = Some st" for st
    by (rule bracketStack_concat) (use arrays(4) in simp)
  moreover have "bracketStack st (concat (map (\<lambda>i. rightNodes (compareJson (getItem l i) (getItem r i)
      (arrayChildPath pth i) (ind + 1) None True (Some i)))
      [0..<max (arrayLength l) (arrayLength r)])) = Some st" for st
    by (rule bracketStack_concat) (use arrays(4) in simp)
  ultimately show ?case
    using arrays(1-3)
    by (simp add: compareJson_arrays bracketStack_append openNode_def closeNode_def)
next
  case (primitives l r pth ind ky isItem idx)
  then show ?case
    by (simp add: compareJson_primitives)
next
  case (neither pth ind ky isItem idx)
  then show ?case
    by simp
qed

subsection \<open>Deep equality is symmetric and preserves the number of lines\<close>

lemma wfJson_entry: "wfJson (JObject obj) \<Longrightarrow> map_of obj k = Some v \<Longrightarrow> wfJson v"
  by (auto simp: list_all_iff dest: map_of_SomeD)

lemma wfJson_item: "wfJson (JArray arr) \<Longrightarrow> v \<in> set arr \<Longrightarrow> wfJson v"
  by (simp add: list_all_iff)

lemma isEqual_sym: "wfJson a \<Longrightarrow> wfJson b \<Longrightarrow> isEqual a b \<Longrightarrow> isEqual b a"
proof (induction a b rule: isEqual.induct)
  case (1 a b)
  from "1.prems" have da: "distinct (map fst a)" and db: "distinct (map fst b)"
    by simp_all
  from "1.prems"(3) have len: "length a = length b"
    and all: "\<And>k v. (k, v) \<in> set a \<Longrightarrow> \<exists>w. map_of b k = Some w \<and> isEqual v w"
    by (auto simp: list_all_iff split: option.splits)
  from "1.prems"(3) da db have keys: "set (map fst a) = set (map fst b)"
    by (rule isEqual_objects_same_keys)
  have "case map_of a k of Some v \<Rightarrow> isEqual w v | None \<Rightarrow> False" if "(k, w) \<in> set b" for k w
  proof -
    from that have "k \<in> set (map fst a)"
      unfolding keys by force
    then obtain v where v: "(k, v) \<in> set a"
      by auto
    with da have a: "map_of a k = Some v"
      by simp
    from all [OF v] obtain w' where w': "map_of b k = Some w'" "isEqual v w'"
      by blast
    from that db have "map_of b k = Some w"
      by simp
    with w' have "isEqual v w"
      by simp
    moreover have "wfJson v" "wfJson w"
      using "1.prems"(1,2) a \<open>map_of b k = Some w\<close> by (auto intro: wfJson_entry)
    ultimately have "isEqual w v"
      using "1.IH" [OF v refl \<open>map_of b k = Some w\<close>] by simp
    with a show ?thesis
      by simp
  qed
  with len show ?case
    by (auto simp: list_all_iff)
next
  case (2 a b)
  from "2.prems"(3) have len: "length a = length b"
    and all: "\<And>v w. (v, w) \<in> set (zip a b) \<Longrightarrow> isEqual v w"
    by (auto simp: list_all_iff)
  have "isEqual w v" if "(w, v) \<in> set (zip b a)" for w v
  proof -
    from that have vw: "(v, w) \<in> set (zip a b)"
      by (subst (asm) zip_commute) auto
    then have "wfJson v" "wfJson w"
      using "2.prems"(1,2) by (auto dest: set_zip_leftD set_zip_rightD intro: wfJson_item)
    with "2.IH" [OF vw refl] all [OF vw] show ?thesis
      by simp
  qed
  with len show ?case
    by (auto simp: list_all_iff)
qed simp_all

lemma sum_list_entries:
  "distinct (map fst obj) \<Longrightarrow>
   sum_list (map (\<lambda>(k, v). f v) obj) = (\<Sum>k \<in> set (map fst obj). f (the (map_of obj k)))"
proof (induction obj)
  case Nil
  then show ?case
    by simp
next
  case (Cons e obj)
  obtain k v where e: "e = (k, v)"
    by (cases e)
  from Cons.prems e have k: "k \<notin> set (map fst obj)" and d: "distinct (map fst obj)"
    by simp_all
  have "(\<Sum>k' \<in> set (map fst obj). f (the (map_of (e # obj) k'))) =
      (\<Sum>k' \<in> set (map fst obj). f (the (map_of obj k')))"
    using k by (intro sum.cong refl) (auto simp: e)
  with Cons.IH [OF d] k show ?case
    by (simp add: e)
qed

lemma isEqual_sizeOf: "wfJson a \<Longrightarrow> wfJson b \<Longrightarrow> isEqual a b \<Longrightarrow> sizeOf a = sizeOf b"
proof (induction a b rule: isEqual.induct)
  case (1 a b)
  from "1.prems" have da: "distinct (map fst a)" and db: "distinct (map fst b)"
    by simp_all
  from "1.prems"(3) have all: "\<And>k v. (k, v) \<in> set a \<Longrightarrow> \<exists>w. map_of b k = Some w \<and> isEqual v w"
    by (auto simp: list_all_iff split: option.splits)
  from "1.prems"(3) da db have keys: "set (map fst a) = set (map fst b)"
    by (rule isEqual_objects_same_keys)
  have "sizeOf (the (map_of a k)) = sizeOf (the (map_of b k))" if "k \<in> set (map fst a)" for k
  proof -
    from that obtain v where v: "(k, v) \<in> set a"
      by auto
    with da have a: "map_of a k = Some v"
      by simp
    from all [OF v] obtain w where w: "map_of b k = Some w" "isEqual v w"
      by blast
    moreover have "wfJson v" "wfJson w"
      using "1.prems"(1,2) a w(1) by (auto intro: wfJson_entry)
    ultimately have "sizeOf v = sizeOf w"
      using "1.IH" [OF v refl w(1)] by simp
    with a w(1) show ?thesis
      by simp
  qed
  then have "(\<Sum>k \<in> set (map fst a). sizeOf (the (map_of a k))) =
      (\<Sum>k \<in> set (map fst b). sizeOf (the (map_of b k)))"
    unfolding keys [symmetric] by (intro sum.cong refl)
  then have "sum_list (map (\<lambda>(k, v). sizeOf v) a) = sum_list (map (\<lambda>(k, v). sizeOf v) b)"
    by (simp only: sum_list_entries [OF da] sum_list_entries [OF db])
  then show ?case
    by simp
next
  case (2 a b)
  from "2.prems"(3) have len: "length a = length b"
    and all: "\<And>v w. (v, w) \<in> set (zip a b) \<Longrightarrow> isEqual v w"
    by (auto simp: list_all_iff)
  have eq: "sizeOf v = sizeOf w" if "(v, w) \<in> set (zip a b)" for v w
  proof -
    from that have "wfJson v" "wfJson w"
      using "2.prems"(1,2) by (auto dest: set_zip_leftD set_zip_rightD intro: wfJson_item)
    with "2.IH" [OF that refl] all [OF that] show ?thesis
      by simp
  qed
  from len eq have "map sizeOf a = map sizeOf b"
  proof (induction a b rule: list_induct2)
    case Nil
    then show ?case
      by simp
  next
    case (Cons x xs y ys)
    then show ?case
      by simp
  qed
  then show ?case
    by simp
qed simp_all

subsection \<open>Classifications under a swap of the arguments\<close>

lemma map_const_replicate: "(\<And>x. x \<in> set xs \<Longrightarrow> f x = c) \<Longrightarrow> map f xs = replicate (length xs) c"
  by (induction xs) simp_all

lemma types_createNodesForValue:
  "map type (createNodesForValue v pth ind ky diffType isItem idx) = replicate (sizeOf v) diffType"
  using map_const_replicate [of "createNodesForValue v pth ind ky diffType isItem idx" type diffType]
  by (simp add: createNodesForValue_sides length_createNodesForValue)

lemma types_padSpacers:
  "map type (padSpacers maxLen ind (createNodesForValue v pth ind' ky diffType isItem idx)) =
     replicate (sizeOf v) diffType @ replicate (maxLen - sizeOf v) SPACER"
  by (simp add: padSpacers_eq types_createNodesForValue length_createNodesForValue
      createSpacer_def)

lemma getAlignedKeys_prefix:
  assumes "distinct (objectKeys b)" "prefix (objectKeys a) (objectKeys b)"
  shows "getAlignedKeys (Some a) (Some b) = objectKeys b"
    and "getAlignedKeys (Some b) (Some a) = objectKeys b"
proof -
  from assms(2) obtain zs where b: "objectKeys b = objectKeys a @ zs"
    by (auto simp: prefix_def)
  with assms(1) have "set (objectKeys a) \<inter> set zs = {}"
    by simp
  then have "filter (\<lambda>k. k \<notin> set (objectKeys a)) zs = zs"
    by (auto simp: filter_id_conv)
  then show "getAlignedKeys (Some a) (Some b) = objectKeys b"
    by (simp add: getAlignedKeys_eq b)
  show "getAlignedKeys (Some b) (Some a) = objectKeys b"
    by (simp add: getAlignedKeys_eq b)
qed

lemma getAlignedKeys_commute:
  assumes "distinct (objectKeys a)" "distinct (objectKeys b)"
    and "prefix (objectKeys a) (objectKeys b) \<or> prefix (objectKeys b) (objectKeys a)"
  shows "getAlignedKeys (Some b) (Some a) = getAlignedKeys (Some a) (Some b)"
  using assms getAlignedKeys_prefix [of a b] getAlignedKeys_prefix [of b a] by auto

lemma wfJson_distinct_keys: "wfJson v \<Longrightarrow> distinct (objectKeys v)"
  by (cases v) simp_all

lemma wfJson_getProp: "wfJson l \<Longrightarrow> getProp l k = Some v \<Longrightarrow> wfJson v"
proof (cases l)
  case (JObject obj)
  assume "wfJson l" and "getProp l k = Some v"
  with JObject show ?thesis
    by (cases "map_of obj k") (auto intro: wfJson_entry split: if_splits)
next
  case JObjectPrototype
  assume "getProp l k = Some v"
  with JObjectPrototype show ?thesis
    by (auto split: if_splits)
qed simp_all

lemma wfJson_getItem: "wfJson l \<Longrightarrow> getItem l i = Some v \<Longrightarrow> wfJson v"
  by (cases l) (auto simp: list_all_iff split: if_splits)

lemma sameKeyOrder_member:
  "sameKeyOrder v JObjectPrototype" "sameKeyOrder v (JFunction f)" "sameKeyOrder v JNull"
  "sameKeyOrder JObjectPrototype w" "sameKeyOrder (JFunction f) w" "sameKeyOrder JNull w"
  by (cases v; simp)+

lemma sameKeyOrder_prefix:
  assumes "sameKeyOrder l r" "getValueType l = TypeObject" "getValueType r = TypeObject"
  shows "prefix (objectKeys l) (objectKeys r) \<or> prefix (objectKeys r) (objectKeys l)"
proof -
  from assms(2) consider a where "l = JObject a" | "l = JObjectPrototype"
    by (auto simp: getValueType_object)
  then show ?thesis
  proof cases
    case 1
    from assms(3) consider b where "r = JObject b" | "r = JObjectPrototype"
      by (auto simp: getValueType_object)
    then show ?thesis
      using 1 assms(1) by cases simp_all
  next
    case 2
    then show ?thesis
      by simp
  qed
qed

lemma getProp_cases:
  assumes "getProp l k = Some v"
  obtains obj where "l = JObject obj" "map_of obj k = Some v"
  | "v = JObjectPrototype" | "v = JFunction k" | "v = JNull"
proof (cases l)
  case (JObject obj)
  with assms that show ?thesis
    by (cases "map_of obj k") (auto split: if_splits)
next
  case JObjectPrototype
  with assms that show ?thesis
    by (auto split: if_splits)
qed (use assms in simp_all)

lemma sameKeyOrder_getProp:
  assumes "sameKeyOrder l r" "getProp l k = Some v" "getProp r k = Some w"
  shows "sameKeyOrder v w"
  using assms(2)
proof (cases rule: getProp_cases)
  case (1 a)
  from assms(3) show ?thesis
  proof (cases rule: getProp_cases)
    case w: (1 b)
    from 1(2) have "(k, v) \<in> set a"
      by (rule map_of_SomeD)
    with assms(1) 1(1) w(1) have "case map_of b k of Some w \<Rightarrow> sameKeyOrder v w | None \<Rightarrow> True"
      by (auto simp: list_all_iff)
    with w(2) show ?thesis
      by simp
  qed (simp_all add: sameKeyOrder_member)
qed (simp_all add: sameKeyOrder_member)

lemma sameKeyOrder_getItem:
  "sameKeyOrder l r \<Longrightarrow> getItem l i = Some v \<Longrightarrow> getItem r i = Some w \<Longrightarrow>
   sameKeyOrder v w"
  by (cases l; cases r) (auto simp: list_all_iff in_set_zip split: if_splits)

lemma swapped_rows:
  "(\<forall>v. l = Some v \<longrightarrow> wfJson v) \<longrightarrow> (\<forall>v. r = Some v \<longrightarrow> wfJson v) \<longrightarrow>
   (\<forall>a b. l = Some a \<longrightarrow> r = Some b \<longrightarrow> sameKeyOrder a b) \<longrightarrow>
   map type (leftNodes (compareJson l r pth ind ky isItem idx)) =
     map swapRoles (map type (rightNodes (compareJson r l pth ind ky isItem idx)))"
proof (induction l r pth ind ky isItem idx rule: compareJson_cases_induct)
  case (onlyLeft l pth ind ky isItem idx)
  then show ?case
    by (simp add: Let_def types_createNodesForValue)
next
  case (onlyRight r pth ind ky isItem idx)
  then show ?case
    by (simp add: Let_def map_replicate_const createSpacer_def length_createNodesForValue)
next
  case (equal l r pth ind ky isItem idx)
  show ?case
  proof (intro impI)
    assume "\<forall>v. Some l = Some v \<longrightarrow> wfJson v" "\<forall>v. Some r = Some v \<longrightarrow> wfJson v"
    then have wf: "wfJson l" "wfJson r"
      by simp_all
    from wf equal have "isEqual r l" "sizeOf l = sizeOf r"
      by (rule isEqual_sym, rule isEqual_sizeOf)
    with equal show "map type (leftNodes (compareJson (Some l) (Some r) pth ind ky isItem idx)) =
        map swapRoles (map type (rightNodes (compareJson (Some r) (Some l) pth ind ky isItem idx)))"
      by (simp add: compareJson_equal types_createNodesForValue)
  qed
next
  case (mismatch l r pth ind ky isItem idx)
  show ?case
  proof (intro impI)
    assume "\<forall>v. Some l = Some v \<longrightarrow> wfJson v" "\<forall>v. Some r = Some v \<longrightarrow> wfJson v"
    then have wf: "wfJson l" "wfJson r"
      by simp_all
    with mismatch(1) have "\<not> isEqual r l"
      using isEqual_sym by blast
    moreover from mismatch(2) have "getValueType r \<noteq> getValueType l"
      by simp
    ultimately show "map type (leftNodes (compareJson (Some l) (Some r) pth ind ky isItem idx)) =
        map swapRoles (map type (rightNodes (compareJson (Some r) (Some l) pth ind ky isItem idx)))"
      using mismatch
      by (simp add: compareJson_mismatch types_padSpacers max.commute [of "sizeOf r" "sizeOf l"])
  qed
next
  case (objects l r pth ind ky isItem idx)
  show ?case
  proof (intro impI)
    assume "\<forall>v. Some l = Some v \<longrightarrow> wfJson v"
      "\<forall>v. Some r = Some v \<longrightarrow> wfJson v"
      "\<forall>a b. Some l = Some a \<longrightarrow> Some r = Some b \<longrightarrow> sameKeyOrder a b"
    then have wf: "wfJson l" "wfJson r"
      and sko: "sameKeyOrder l r"
      by simp_all
    from wf objects(1) have ne: "\<not> isEqual r l"
      using isEqual_sym by blast
    have ks: "getAlignedKeys (Some r) (Some l) = getAlignedKeys (Some l) (Some r)"
      using wf sameKeyOrder_prefix [OF sko objects(2,3)]
      by (intro getAlignedKeys_commute wfJson_distinct_keys)
    have child: "map type (leftNodes (compareJson (getProp l k) (getProp r k)
          (objectChildPath pth k) (ind + 1) (Some k) False None)) =
        map swapRoles (map type (rightNodes (compareJson (getProp r k) (getProp l k)
          (objectChildPath pth k) (ind + 1) (Some k) False None)))"
      if "k \<in> set (getAlignedKeys (Some l) (Some r))" for k
      using objects(4) [OF that] wfJson_getProp [OF wf(1), of k] wfJson_getProp [OF wf(2), of k]
        sameKeyOrder_getProp [OF sko, of k]
      by blast
    have "concat (map (\<lambda>k. map type (leftNodes (compareJson (getProp l k) (getProp r k)
          (objectChildPath pth k) (ind + 1) (Some k) False None)))
          (getAlignedKeys (Some l) (Some r))) =
        concat (map (\<lambda>k. map swapRoles (map type (rightNodes (compareJson (getProp r k)
          (getProp l k) (objectChildPath pth k) (ind + 1) (Some k) False None))))
          (getAlignedKeys (Some l) (Some r)))"
      by (intro arg_cong [where f = concat] map_cong refl child)
    then show "map type (leftNodes
          (compareJson (Some l) (Some r) pth ind ky isItem idx)) =
        map swapRoles (map type (rightNodes
          (compareJson (Some r) (Some l) pth ind ky isItem idx)))"
      unfolding compareJson_objects [OF objects(1-3)] compareJson_objects [OF ne objects(3,2)] ks
      by (simp add: map_concat comp_def openNode_def closeNode_def)
  qed
next
  case (arrays l r pth ind ky isItem idx)
  show ?case
  proof (intro impI)
    assume "\<forall>v. Some l = Some v \<longrightarrow> wfJson v"
      "\<forall>v. Some r = Some v \<longrightarrow> wfJson v"
      "\<forall>a b. Some l = Some a \<longrightarrow> Some r = Some b \<longrightarrow> sameKeyOrder a b"
    then have wf: "wfJson l" "wfJson r"
      and sko: "sameKeyOrder l r"
      by simp_all
    from wf arrays(1) have ne: "\<not> isEqual r l"
      using isEqual_sym by blast
    have child: "map type (leftNodes (compareJson (getItem l i) (getItem r i)
          (arrayChildPath pth i) (ind + 1) None True (Some i))) =
        map swapRoles (map type (rightNodes (compareJson (getItem r i) (getItem l i)
          (arrayChildPath pth i) (ind + 1) None True (Some i))))"
      if "i \<in> set [0..<max (arrayLength l) (arrayLength r)]" for i
    proof -
      from that have "i < max (arrayLength l) (arrayLength r)"
        by simp
      from arrays(4) [OF this] wfJson_getItem [OF wf(1), of i] wfJson_getItem [OF wf(2), of i]
        sameKeyOrder_getItem [OF sko, of i]
      show ?thesis
        by blast
    qed
    have "concat (map (\<lambda>i. map type (leftNodes (compareJson (getItem l i) (getItem r i)
          (arrayChildPath pth i) (ind + 1) None True (Some i))))
          [0..<max (arrayLength l) (arrayLength r)]) =
        concat (map (\<lambda>i. map swapRoles (map type (rightNodes (compareJson (getItem r i)
          (getItem l i) (arrayChildPath pth i) (ind + 1) None True (Some i)))))
          [0..<max (arrayLength l) (arrayLength r)])"
      by (intro arg_cong [where f = concat] map_cong refl child)
    then show "map type (leftNodes
          (compareJson (Some l) (Some r) pth ind ky isItem idx)) =
        map swapRoles (map type (rightNodes
          (compareJson (Some r) (Some l) pth ind ky isItem idx)))"
      unfolding compareJson_arrays [OF arrays(1-3)] compareJson_arrays [OF ne arrays(3,2)]
        max.commute [of "arrayLength r" "arrayLength l"]
      by (simp add: map_concat comp_def openNode_def closeNode_def)
  qed
next
  case (primitives l r pth ind ky isItem idx)
  show ?case
  proof (intro impI)
    assume "\<forall>v. Some l = Some v \<longrightarrow> wfJson v" "\<forall>v. Some r = Some v \<longrightarrow> wfJson v"
    then have wf: "wfJson l" "wfJson r"
      by simp_all
    with primitives(1) have "\<not> isEqual r l"
      using isEqual_sym by blast
    with primitives show "map type (leftNodes (compareJson (Some l) (Some r) pth ind ky isItem idx)) =
        map swapRoles (map type (rightNodes (compareJson (Some r) (Some l) pth ind ky isItem idx)))"
      by (simp add: compareJson_primitives)
  qed
next
  case (neither pth ind ky isItem idx)
  then show ?case
    by simp
qed

lemma mset_concat_cong:
  assumes "mset ks = mset ks'" and "\<And>k. k \<in> set ks \<Longrightarrow> mset (F k) = mset (G k)"
  shows "mset (concat (map F ks)) = mset (concat (map G ks'))"
proof -
  have "mset (concat (map F ks)) = sum_mset (image_mset (\<lambda>k. mset (F k)) (mset ks))"
    by (simp add: mset_concat sum_mset_sum_list [symmetric] comp_def)
  also have "\<dots> = sum_mset (image_mset (\<lambda>k. mset (G k)) (mset ks))"
    using assms(2) by (intro arg_cong [where f = sum_mset] image_mset_cong) simp
  also have "\<dots> = mset (concat (map G ks'))"
    by (simp add: assms(1) mset_concat sum_mset_sum_list [symmetric] comp_def)
  finally show ?thesis .
qed

lemma mset_getAlignedKeys_commute:
  assumes "distinct (objectKeys a)" "distinct (objectKeys b)"
  shows "mset (getAlignedKeys (Some a) (Some b)) = mset (getAlignedKeys (Some b) (Some a))"
proof -
  have "distinct (getAlignedKeys (Some a) (Some b))" "distinct (getAlignedKeys (Some b) (Some a))"
    using assms by (auto simp: getAlignedKeys_eq)
  moreover have "set (getAlignedKeys (Some a) (Some b)) = set (getAlignedKeys (Some b) (Some a))"
    by (auto simp: getAlignedKeys_eq)
  ultimately show ?thesis
    by (simp add: set_eq_iff_mset_eq_distinct)
qed

lemma swapped_rows_permuted:
  "(\<forall>v. l = Some v \<longrightarrow> wfJson v) \<longrightarrow> (\<forall>v. r = Some v \<longrightarrow> wfJson v) \<longrightarrow>
   mset (map type (leftNodes (compareJson l r pth ind ky isItem idx))) =
     mset (map swapRoles (map type (rightNodes (compareJson r l pth ind ky isItem idx))))"
proof (induction l r pth ind ky isItem idx rule: compareJson_cases_induct)
  case (onlyLeft l pth ind ky isItem idx)
  then show ?case
    by (simp add: Let_def types_createNodesForValue)
next
  case (onlyRight r pth ind ky isItem idx)
  then show ?case
    by (simp add: Let_def map_replicate_const createSpacer_def length_createNodesForValue)
next
  case (equal l r pth ind ky isItem idx)
  show ?case
  proof (intro impI)
    assume "\<forall>v. Some l = Some v \<longrightarrow> wfJson v" "\<forall>v. Some r = Some v \<longrightarrow> wfJson v"
    then have wf: "wfJson l" "wfJson r"
      by simp_all
    from wf equal have "isEqual r l" "sizeOf l = sizeOf r"
      by (rule isEqual_sym, rule isEqual_sizeOf)
    with equal show "mset (map type (leftNodes (compareJson (Some l) (Some r) pth ind ky isItem idx))) =
        mset (map swapRoles (map type (rightNodes (compareJson (Some r) (Some l) pth ind ky isItem idx))))"
      by (simp add: compareJson_equal types_createNodesForValue)
  qed
next
  case (mismatch l r pth ind ky isItem idx)
  show ?case
  proof (intro impI)
    assume "\<forall>v. Some l = Some v \<longrightarrow> wfJson v" "\<forall>v. Some r = Some v \<longrightarrow> wfJson v"
    then have wf: "wfJson l" "wfJson r"
      by simp_all
    with mismatch(1) have "\<not> isEqual r l"
      using isEqual_sym by blast
    moreover from mismatch(2) have "getValueType r \<noteq> getValueType l"
      by simp
    ultimately show "mset (map type (leftNodes (compareJson (Some l) (Some r) pth ind ky isItem idx))) =
        mset (map swapRoles (map type (rightNodes (compareJson (Some r) (Some l) pth ind ky isItem idx))))"
      using mismatch
      by (simp add: compareJson_mismatch types_padSpacers max.commute [of "sizeOf r" "sizeOf l"])
  qed
next
  case (objects l r pth ind ky isItem idx)
  show ?case
  proof (intro impI)
    assume "\<forall>v. Some l = Some v \<longrightarrow> wfJson v"
      "\<forall>v. Some r = Some v \<longrightarrow> wfJson v"
    then have wf: "wfJson l" "wfJson r"
      by simp_all
    from wf objects(1) have ne: "\<not> isEqual r l"
      using isEqual_sym by blast
    from wf have ks: "mset (getAlignedKeys (Some l) (Some r)) =
        mset (getAlignedKeys (Some r) (Some l))"
      by (intro mset_getAlignedKeys_commute wfJson_distinct_keys)
    have child: "mset (map type (leftNodes (compareJson (getProp l k) (getProp r k)
          (objectChildPath pth k) (ind + 1) (Some k) False None))) =
        mset (map swapRoles (map type (rightNodes (compareJson (getProp r k) (getProp l k)
          (objectChildPath pth k) (ind + 1) (Some k) False None))))"
      if "k \<in> set (getAlignedKeys (Some l) (Some r))" for k
      using objects(4) [OF that] wfJson_getProp [OF wf(1), of k] wfJson_getProp [OF wf(2), of k]
      by blast
    have "mset (concat (map (\<lambda>k. map type (leftNodes (compareJson (getProp l k)
          (getProp r k) (objectChildPath pth k) (ind + 1) (Some k) False None)))
          (getAlignedKeys (Some l) (Some r)))) =
        mset (concat (map (\<lambda>k. map swapRoles (map type (rightNodes (compareJson (getProp r k)
          (getProp l k) (objectChildPath pth k) (ind + 1) (Some k) False None))))
          (getAlignedKeys (Some r) (Some l))))"
      using ks child by (rule mset_concat_cong)
    then show "mset (map type (leftNodes
          (compareJson (Some l) (Some r) pth ind ky isItem idx))) =
        mset (map swapRoles (map type (rightNodes
          (compareJson (Some r) (Some l) pth ind ky isItem idx))))"
      unfolding compareJson_objects [OF objects(1-3)] compareJson_objects [OF ne objects(3,2)]
      by (simp add: map_concat comp_def openNode_def closeNode_def)
  qed
next
  case (arrays l r pth ind ky isItem idx)
  show ?case
  proof (intro impI)
    assume "\<forall>v. Some l = Some v \<longrightarrow> wfJson v"
      "\<forall>v. Some r = Some v \<longrightarrow> wfJson v"
    then have wf: "wfJson l" "wfJson r"
      by simp_all
    from wf arrays(1) have ne: "\<not> isEqual r l"
      using isEqual_sym by blast
    have child: "mset (map type (leftNodes (compareJson (getItem l i) (getItem r i)
          (arrayChildPath pth i) (ind + 1) None True (Some i)))) =
        mset (map swapRoles (map type (rightNodes (compareJson (getItem r i) (getItem l i)
          (arrayChildPath pth i) (ind + 1) None True (Some i)))))"
      if "i \<in> set [0..<max (arrayLength l) (arrayLength r)]" for i
    proof -
      from that have "i < max (arrayLength l) (arrayLength r)"
        by simp
      from arrays(4) [OF this] wfJson_getItem [OF wf(1), of i] wfJson_getItem [OF wf(2), of i]
      show ?thesis
        by blast
    qed
    have "mset (concat (map (\<lambda>i. map type (leftNodes (compareJson (getItem l i)
          (getItem r i) (arrayChildPath pth i) (ind + 1) None True (Some i))))
          [0..<max (arrayLength l) (arrayLength r)])) =
        mset (concat (map (\<lambda>i. map swapRoles (map type (rightNodes (compareJson (getItem r i)
          (getItem l i) (arrayChildPath pth i) (ind + 1) None True (Some i)))))
          [0..<max (arrayLength l) (arrayLength r)]))"
      using refl child by (rule mset_concat_cong)
    then show "mset (map type (leftNodes
          (compareJson (Some l) (Some r) pth ind ky isItem idx))) =
        mset (map swapRoles (map type (rightNodes
          (compareJson (Some r) (Some l) pth ind ky isItem idx))))"
      unfolding compareJson_arrays [OF arrays(1-3)] compareJson_arrays [OF ne arrays(3,2)]
        max.commute [of "arrayLength r" "arrayLength l"]
      by (simp add: map_concat comp_def openNode_def closeNode_def)
  qed
next
  case (primitives l r pth ind ky isItem idx)
  show ?case
  proof (intro impI)
    assume "\<forall>v. Some l = Some v \<longrightarrow> wfJson v" "\<forall>v. Some r = Some v \<longrightarrow> wfJson v"
    then have wf: "wfJson l" "wfJson r"
      by simp_all
    with primitives(1) have "\<not> isEqual r l"
      using isEqual_sym by blast
    with primitives show "mset (map type (leftNodes (compareJson (Some l) (Some r) pth ind ky isItem idx))) =
        mset (map swapRoles (map type (rightNodes (compareJson (Some r) (Some l) pth ind ky isItem idx))))"
      by (simp add: compareJson_primitives)
  qed
next
  case (neither pth ind ky isItem idx)
  then show ?case
    by simp
qed

subsection \<open>The values of a materialized subtree\<close>

lemma map_index_nth: "map (\<lambda>i. f (xs ! i)) [0..<length xs] = map f xs"
  by (intro nth_equalityI) simp_all

lemma values_createNodesForValue:
  assumes "diffType = REMOVED \<or> diffType = ADDED"
  shows "map (\<lambda>n. (type n, leftValue n, rightValue n))
       (createNodesForValue v pth ind ky diffType isItem idx) =
     map (\<lambda>x. (diffType, if diffType = REMOVED then Some x else None,
       if diffType = ADDED then Some x else None)) (lineValues v)"
  using assms
proof (induction v pth ind ky diffType isItem idx rule: createNodesForValue.induct)
  case (1 obj pth ind ky diffType isItem idx)
  have "concat (map (\<lambda>e. map (\<lambda>n. (type n, leftValue n, rightValue n)) (case e of (k, v) \<Rightarrow>
        createNodesForValue v (objectChildPath pth k) (ind + 1) (Some k) diffType False None)) obj) =
      concat (map (\<lambda>e. map (\<lambda>x. (diffType, if diffType = REMOVED then Some x else None,
        if diffType = ADDED then Some x else None)) (case e of (k, v) \<Rightarrow> lineValues v)) obj)"
    using 1 by (intro arg_cong [where f = concat] map_cong refl) auto
  then show ?case
    by (simp add: map_concat comp_def)
next
  case (3 arr pth ind ky diffType isItem idx)
  have "map (\<lambda>i. map (\<lambda>n. (type n, leftValue n, rightValue n))
        (createNodesForValue (arr ! i) (arrayChildPath pth i) (ind + 1) None diffType True (Some i)))
        [0..<length arr] =
      map (\<lambda>i. map (\<lambda>x. (diffType, if diffType = REMOVED then Some x else None,
        if diffType = ADDED then Some x else None)) (lineValues (arr ! i))) [0..<length arr]"
    using 3 by (intro map_cong refl) auto
  also have "\<dots> = map (\<lambda>v. map (\<lambda>x. (diffType, if diffType = REMOVED then Some x else None,
        if diffType = ADDED then Some x else None)) (lineValues v)) arr"
    by (rule map_index_nth)
  finally have "concat (map (\<lambda>i. map (\<lambda>n. (type n, leftValue n, rightValue n))
        (createNodesForValue (arr ! i) (arrayChildPath pth i) (ind + 1) None diffType True (Some i)))
        [0..<length arr]) =
      concat (map (\<lambda>v. map (\<lambda>x. (diffType, if diffType = REMOVED then Some x else None,
        if diffType = ADDED then Some x else None)) (lineValues v)) arr)"
    by simp
  then show ?case
    by (simp add: map_concat comp_def)
qed auto

lemma leaves_createNodesForValue:
  assumes "diffType = MODIFIED \<or> diffType = UNCHANGED"
  shows "map (\<lambda>n. (type n, leftValue n, rightValue n))
       (filter isLeafNode (createNodesForValue v pth ind ky diffType isItem idx)) =
     map (\<lambda>x. (diffType, Some x, Some x)) (leafValues v)"
  using assms
proof (induction v pth ind ky diffType isItem idx rule: createNodesForValue.induct)
  case (1 obj pth ind ky diffType isItem idx)
  have "concat (map (\<lambda>e. map (\<lambda>n. (type n, leftValue n, rightValue n)) (filter isLeafNode (case e of (k, v) \<Rightarrow>
        createNodesForValue v (objectChildPath pth k) (ind + 1) (Some k) diffType False None))) obj) =
      concat (map (\<lambda>e. map (\<lambda>x. (diffType, Some x, Some x)) (case e of (k, v) \<Rightarrow> leafValues v)) obj)"
    using 1 by (intro arg_cong [where f = concat] map_cong refl) auto
  then show ?case
    by (simp add: map_concat filter_concat comp_def isLeafNode_def [abs_def])
next
  case (3 arr pth ind ky diffType isItem idx)
  have "map (\<lambda>i. map (\<lambda>n. (type n, leftValue n, rightValue n)) (filter isLeafNode
        (createNodesForValue (arr ! i) (arrayChildPath pth i) (ind + 1) None diffType True (Some i))))
        [0..<length arr] =
      map (\<lambda>i. map (\<lambda>x. (diffType, Some x, Some x)) (leafValues (arr ! i))) [0..<length arr]"
    using 3 by (intro map_cong refl) auto
  also have "\<dots> = map (\<lambda>v. map (\<lambda>x. (diffType, Some x, Some x)) (leafValues v)) arr"
    by (rule map_index_nth)
  finally have "concat (map (\<lambda>i. map (\<lambda>n. (type n, leftValue n, rightValue n)) (filter isLeafNode
        (createNodesForValue (arr ! i) (arrayChildPath pth i) (ind + 1) None diffType True (Some i))))
        [0..<length arr]) =
      concat (map (\<lambda>v. map (\<lambda>x. (diffType, Some x, Some x)) (leafValues v)) arr)"
    by simp
  then show ?case
    by (simp add: map_concat filter_concat comp_def isLeafNode_def [abs_def])
qed (auto simp: isLeafNode_def)

subsection \<open>The number of nodes of a flat array\<close>

lemma sizeOf_flat_array: "sizeOf (JArray (replicate n (JNumber x))) = n + 2"
  by (simp add: sum_list_replicate)

lemma wfJson_flat_array: "wfJson (JArray (replicate n (JNumber x)))"
  by (simp add: list_all_iff)

lemma compareJson_flat_array:
  "length (leftNodes (compareJson (Some (JArray (replicate n (JNumber x))))
     (Some (JArray (replicate n (JNumber x)))) pth ind ky isItem idx)) = n + 2"
  using isEqual_refl [OF wfJson_flat_array, of n x]
  by (simp only: compareJson_equal DiffResult.simps length_createNodesForValue sizeOf_flat_array)

section \<open>The claims\<close>

text \<open>
  C1, alignment invariant: for every pair of inputs, each a value or absent, and every
  path, indent, key and array position, \<open>compareJson\<close> returns a left and a right node
  sequence of equal length.
\<close>

theorem compareJson_aligned:
  "length (leftNodes (compareJson l r pth ind ky isItem idx)) =
   length (rightNodes (compareJson l r pth ind ky isItem idx))"
  by (rule length_compareJson_sides)

text \<open>
  The invariant at \<open>compare({"a":1}, {"b":1})\<close>: four rows on the left, hence four on
  the right.
\<close>

theorem compareJson_aligned_witness:
  "length (rightNodes (compareJson (Some (JObject [(''a'', JNumber 1)]))
     (Some (JObject [(''b'', JNumber 1)])) [] 0 None False None)) = 4"
proof -
  have "length (leftNodes (compareJson (Some (JObject [(''a'', JNumber 1)]))
     (Some (JObject [(''b'', JNumber 1)])) [] 0 None False None)) = 4"
    by code_simp
  then show ?thesis
    by (rule trans [OF compareJson_aligned [symmetric]])
qed

text \<open>
  C2, reflexivity: for every value \<open>v\<close> whose objects hold each key once,
  \<open>compareJson v v\<close> yields only \<open>UNCHANGED\<close> nodes on both sides, and both sequences
  have \<open>sizeOf v\<close> nodes, the number of nodes \<open>createNodesForValue\<close> produces for \<open>v\<close>
  under any classification.
\<close>

theorem compareJson_reflexive:
  assumes "wfJson v"
  shows "(\<forall>n \<in> set (leftNodes (compareJson (Some v) (Some v) pth ind ky isItem idx)).
            type n = UNCHANGED) \<and>
         (\<forall>n \<in> set (rightNodes (compareJson (Some v) (Some v) pth ind ky isItem idx)).
            type n = UNCHANGED) \<and>
         length (leftNodes (compareJson (Some v) (Some v) pth ind ky isItem idx)) = sizeOf v \<and>
         length (rightNodes (compareJson (Some v) (Some v) pth ind ky isItem idx)) = sizeOf v \<and>
         length (createNodesForValue v pth ind ky diffType isItem idx) = sizeOf v"
  using assms
  by (simp add: compareJson_equal isEqual_refl length_createNodesForValue createNodesForValue_sides)

text \<open>
  Reflexivity at \<open>{"a": [1, null], "b": {}}\<close>, a value of eight lines.
\<close>

theorem compareJson_reflexive_witness:
  "wfJson (JObject [(''a'', JArray [JNumber 1, JNull]), (''b'', JObject [])]) \<and>
   list_all (\<lambda>n. type n = UNCHANGED) (leftNodes (compareJson
        (Some (JObject [(''a'', JArray [JNumber 1, JNull]), (''b'', JObject [])]))
        (Some (JObject [(''a'', JArray [JNumber 1, JNull]), (''b'', JObject [])]))
        [] 0 None False None)) \<and>
   length (leftNodes (compareJson
        (Some (JObject [(''a'', JArray [JNumber 1, JNull]), (''b'', JObject [])]))
        (Some (JObject [(''a'', JArray [JNumber 1, JNull]), (''b'', JObject [])]))
        [] 0 None False None)) = 8"
proof -
  have wf: "wfJson (JObject [(''a'', JArray [JNumber 1, JNull]), (''b'', JObject [])])"
    by simp
  have sz: "sizeOf (JObject [(''a'', JArray [JNumber 1, JNull]), (''b'', JObject [])]) = 8"
    by simp
  note refl = compareJson_reflexive [OF wf, of "[]" 0 None False None UNCHANGED]
  from refl have "length (leftNodes (compareJson
        (Some (JObject [(''a'', JArray [JNumber 1, JNull]), (''b'', JObject [])]))
        (Some (JObject [(''a'', JArray [JNumber 1, JNull]), (''b'', JObject [])]))
        [] 0 None False None)) = 8"
    by (simp only: sz)
  moreover from refl have "list_all (\<lambda>n. type n = UNCHANGED) (leftNodes (compareJson
        (Some (JObject [(''a'', JArray [JNumber 1, JNull]), (''b'', JObject [])]))
        (Some (JObject [(''a'', JArray [JNumber 1, JNull]), (''b'', JObject [])]))
        [] 0 None False None))"
    unfolding list_all_iff by (rule conjunct1)
  ultimately show ?thesis
    using wf by blast
qed

text \<open>
  C3, argument-swap symmetry. As stated the claim fails: the rows of two compared objects
  follow the left object's keys first, so swapping the arguments reorders them. For
  \<open>{"a": 1}\<close> and \<open>{"b": 1}\<close> the left side of \<open>compare(A, B)\<close> has the removed row before
  the spacer, while the right side of \<open>compare(B, A)\<close>, with the roles exchanged, has the
  spacer before the removed row.
\<close>

theorem swap_symmetry_counterexample:
  "map type (leftNodes (compareJson (Some (JObject [(''a'', JNumber 1)]))
      (Some (JObject [(''b'', JNumber 1)])) [] 0 None False None)) =
     [UNCHANGED, REMOVED, SPACER, UNCHANGED] \<and>
   map swapRoles (map type (rightNodes (compareJson (Some (JObject [(''b'', JNumber 1)]))
      (Some (JObject [(''a'', JNumber 1)])) [] 0 None False None))) =
     [UNCHANGED, SPACER, REMOVED, UNCHANGED]"
  by code_simp

text \<open>
  C3 as amended: for all values \<open>a\<close> and \<open>b\<close> whose objects hold each key once, the
  classifications of the left side of \<open>compareJson a b\<close> are those of the right side of
  \<open>compareJson b a\<close> with \<open>REMOVED\<close> and \<open>ADDED\<close> exchanged, up to the order of the rows:
  every classification occurs equally often. They agree row by row, with \<open>MODIFIED\<close>,
  \<open>UNCHANGED\<close> and \<open>SPACER\<close> at the same positions, whenever the two values agree on key
  order: at every pair of corresponding objects, the key sequence of one is a prefix of
  the other's.
\<close>

theorem compareJson_swap_symmetry:
  assumes "wfJson a" and "wfJson b"
  shows "mset (map type (leftNodes (compareJson (Some a) (Some b) pth ind ky isItem idx))) =
       mset (map swapRoles (map type (rightNodes (compareJson (Some b) (Some a) pth ind ky isItem idx)))) \<and>
     (sameKeyOrder a b \<longrightarrow>
       map type (leftNodes (compareJson (Some a) (Some b) pth ind ky isItem idx)) =
       map swapRoles (map type (rightNodes (compareJson (Some b) (Some a) pth ind ky isItem idx))))"
  using assms swapped_rows_permuted [of "Some a" "Some b" pth ind ky isItem idx]
    swapped_rows [of "Some a" "Some b" pth ind ky isItem idx]
  by simp

text \<open>
  The arrays \<open>[1, {"x": 1}]\<close> and \<open>[0, {"x": 2, "y": 3}]\<close> agree on key order: the two
  sequences of classifications agree row by row.
\<close>

theorem compareJson_swap_symmetry_witness:
  "wfJson (JArray [JNumber 1, JObject [(''x'', JNumber 1)]]) \<and>
   wfJson (JArray [JNumber 0, JObject [(''x'', JNumber 2), (''y'', JNumber 3)]]) \<and>
   sameKeyOrder (JArray [JNumber 1, JObject [(''x'', JNumber 1)]])
     (JArray [JNumber 0, JObject [(''x'', JNumber 2), (''y'', JNumber 3)]]) \<and>
   map swapRoles (map type (rightNodes (compareJson
     (Some (JArray [JNumber 0, JObject [(''x'', JNumber 2), (''y'', JNumber 3)]]))
     (Some (JArray [JNumber 1, JObject [(''x'', JNumber 1)]])) [] 0 None False None))) =
     [UNCHANGED, MODIFIED, UNCHANGED, MODIFIED, SPACER, UNCHANGED, UNCHANGED]"
proof -
  let ?A = "JArray [JNumber 1, JObject [(''x'', JNumber 1)]]"
  let ?B = "JArray [JNumber 0, JObject [(''x'', JNumber 2), (''y'', JNumber 3)]]"
  have wfA: "wfJson ?A" and wfB: "wfJson ?B"
    by simp_all
  have sko: "sameKeyOrder ?A ?B"
    by simp
  have left: "map type (leftNodes (compareJson (Some ?A) (Some ?B) [] 0 None False None)) =
      [UNCHANGED, MODIFIED, UNCHANGED, MODIFIED, SPACER, UNCHANGED, UNCHANGED]"
    by code_simp
  from compareJson_swap_symmetry [OF wfA wfB, of "[]" 0 None False None] sko
  have "map type (leftNodes (compareJson (Some ?A) (Some ?B) [] 0 None False None)) =
      map swapRoles (map type (rightNodes (compareJson (Some ?B) (Some ?A) [] 0 None False None)))"
    by blast
  with left wfA wfB sko show ?thesis
    by simp
qed

text \<open>
  C4, aligned key order: \<open>getAlignedKeys\<close> gives all keys of the left object in their
  order, followed by the keys of the right object that the left one lacks, in the right
  object's order. When two objects (each holding every key once) are compared, the
  children are walked in that order: the keys the rows show one level below the object
  are the aligned keys, in this order. Each side shows, in aligned order, the keys for
  which the lookup \<open>obj[k]\<close> on its object finds a value: the object's own keys, and those
  keys of the other object that name a member of \<open>Object.prototype\<close>. In particular, for
  two objects with the same key set in different orders, the key sequence on the left
  side is the left object's key order, and so is the one on the right side.
\<close>

theorem compareJson_aligned_key_order:
  assumes "wfJson (JObject leftObj)" and "wfJson (JObject rightObj)"
  shows "getAlignedKeys (Some (JObject leftObj)) (Some (JObject rightObj)) =
       objectKeys (JObject leftObj) @
       filter (\<lambda>k. k \<notin> set (objectKeys (JObject leftObj))) (objectKeys (JObject rightObj)) \<and>
     rowKeysAtIndent (ind + 1)
       (leftNodes (compareJson (Some (JObject leftObj)) (Some (JObject rightObj)) pth ind ky isItem idx))
       (rightNodes (compareJson (Some (JObject leftObj)) (Some (JObject rightObj)) pth ind ky isItem idx)) =
       getAlignedKeys (Some (JObject leftObj)) (Some (JObject rightObj)) \<and>
     keysAtIndent (ind + 1)
       (leftNodes (compareJson (Some (JObject leftObj)) (Some (JObject rightObj)) pth ind ky isItem idx)) =
       filter (\<lambda>k. getProp (JObject leftObj) k \<noteq> None)
         (getAlignedKeys (Some (JObject leftObj)) (Some (JObject rightObj))) \<and>
     keysAtIndent (ind + 1)
       (rightNodes (compareJson (Some (JObject leftObj)) (Some (JObject rightObj)) pth ind ky isItem idx)) =
       filter (\<lambda>k. getProp (JObject rightObj) k \<noteq> None)
         (getAlignedKeys (Some (JObject leftObj)) (Some (JObject rightObj))) \<and>
     (set (objectKeys (JObject leftObj)) = set (objectKeys (JObject rightObj)) \<longrightarrow>
       keysAtIndent (ind + 1)
         (leftNodes (compareJson (Some (JObject leftObj)) (Some (JObject rightObj)) pth ind ky isItem idx)) =
         objectKeys (JObject leftObj) \<and>
       keysAtIndent (ind + 1)
         (rightNodes (compareJson (Some (JObject leftObj)) (Some (JObject rightObj)) pth ind ky isItem idx)) =
         objectKeys (JObject leftObj))"
proof -
  let ?l = "JObject leftObj" and ?r = "JObject rightObj"
  let ?res = "compareJson (Some ?l) (Some ?r) pth ind ky isItem idx"
  let ?ks = "getAlignedKeys (Some ?l) (Some ?r)"
  have types: "getValueType ?l = TypeObject" "getValueType ?r = TypeObject"
    by simp_all
  have ks: "?ks = objectKeys ?l @ filter (\<lambda>k. k \<notin> set (objectKeys ?l)) (objectKeys ?r)"
    by (rule getAlignedKeys_eq)
  have "rowKeysAtIndent (ind + 1) (leftNodes ?res) (rightNodes ?res) = ?ks \<and>
      keysAtIndent (ind + 1) (leftNodes ?res) = filter (\<lambda>k. getProp ?l k \<noteq> None) ?ks \<and>
      keysAtIndent (ind + 1) (rightNodes ?res) = filter (\<lambda>k. getProp ?r k \<noteq> None) ?ks"
  proof (cases "isEqual ?l ?r")
    case True
    show ?thesis
      by (intro conjI) (rule keys_of_equal_objects [OF True types assms])+
  next
    case False
    show ?thesis
      by (intro conjI) (rule keys_of_unequal_objects [OF False types])+
  qed
  then have rows: "rowKeysAtIndent (ind + 1) (leftNodes ?res) (rightNodes ?res) = ?ks"
    and left: "keysAtIndent (ind + 1) (leftNodes ?res) = filter (\<lambda>k. getProp ?l k \<noteq> None) ?ks"
    and right: "keysAtIndent (ind + 1) (rightNodes ?res) = filter (\<lambda>k. getProp ?r k \<noteq> None) ?ks"
    by simp_all
  have same: "filter (\<lambda>k. getProp ?l k \<noteq> None) ?ks = objectKeys ?l \<and>
      filter (\<lambda>k. getProp ?r k \<noteq> None) ?ks = objectKeys ?l"
    if eq: "set (objectKeys ?l) = set (objectKeys ?r)"
  proof -
    from eq have "?ks = objectKeys ?l"
      unfolding ks by simp
    moreover have "filter (\<lambda>k. getProp ?l k \<noteq> None) (objectKeys ?l) = objectKeys ?l"
      using getProp_own [of _ ?l] by (simp only: filter_id_conv) blast
    moreover have "filter (\<lambda>k. getProp ?r k \<noteq> None) (objectKeys ?l) = objectKeys ?l"
      using getProp_own [of _ ?r] eq by (simp only: filter_id_conv) blast
    ultimately show ?thesis
      by simp
  qed
  have order: "set (objectKeys ?l) = set (objectKeys ?r) \<longrightarrow>
      keysAtIndent (ind + 1) (leftNodes ?res) = objectKeys ?l \<and>
      keysAtIndent (ind + 1) (rightNodes ?res) = objectKeys ?l"
    unfolding left right using same by blast
  show ?thesis
    by (intro conjI ks rows left right order)
qed

text \<open>
  The objects \<open>{"b": 1, "a": 2}\<close> and \<open>{"a": 3, "b": 1}\<close> have the same keys in different
  orders: the rows come in the left object's order on both sides.
\<close>

theorem compareJson_aligned_key_order_witness:
  "wfJson (JObject [(''b'', JNumber 1), (''a'', JNumber 2)]) \<and>
   wfJson (JObject [(''a'', JNumber 3), (''b'', JNumber 1)]) \<and>
   set (objectKeys (JObject [(''b'', JNumber 1), (''a'', JNumber 2)])) =
     set (objectKeys (JObject [(''a'', JNumber 3), (''b'', JNumber 1)])) \<and>
   rowKeysAtIndent 1
     (leftNodes (compareJson (Some (JObject [(''b'', JNumber 1), (''a'', JNumber 2)]))
        (Some (JObject [(''a'', JNumber 3), (''b'', JNumber 1)])) [] 0 None False None))
     (rightNodes (compareJson (Some (JObject [(''b'', JNumber 1), (''a'', JNumber 2)]))
        (Some (JObject [(''a'', JNumber 3), (''b'', JNumber 1)])) [] 0 None False None)) =
     [''b'', ''a''] \<and>
   keysAtIndent 1
     (leftNodes (compareJson (Some (JObject [(''b'', JNumber 1), (''a'', JNumber 2)]))
        (Some (JObject [(''a'', JNumber 3), (''b'', JNumber 1)])) [] 0 None False None)) =
     [''b'', ''a''] \<and>
   keysAtIndent 1
     (rightNodes (compareJson (Some (JObject [(''b'', JNumber 1), (''a'', JNumber 2)]))
        (Some (JObject [(''a'', JNumber 3), (''b'', JNumber 1)])) [] 0 None False None)) =
     [''b'', ''a'']"
proof -
  let ?L = "[(''b'', JNumber 1), (''a'', JNumber 2)]"
  let ?R = "[(''a'', JNumber 3), (''b'', JNumber 1)]"
  have wfL: "wfJson (JObject ?L)" and wfR: "wfJson (JObject ?R)"
    by simp_all
  have same: "set (objectKeys (JObject ?L)) = set (objectKeys (JObject ?R))"
    by auto
  have keys: "objectKeys (JObject ?L) = [''b'', ''a'']"
    by simp
  have ks: "getAlignedKeys (Some (JObject ?L)) (Some (JObject ?R)) = [''b'', ''a'']"
    by (simp add: getAlignedKeys_eq)
  note order = compareJson_aligned_key_order [OF wfL wfR, of 0 "[]" None False None]
  from order same have "rowKeysAtIndent 1
      (leftNodes (compareJson (Some (JObject ?L)) (Some (JObject ?R)) [] 0 None False None))
      (rightNodes (compareJson (Some (JObject ?L)) (Some (JObject ?R)) [] 0 None False None)) =
      [''b'', ''a''] \<and>
    keysAtIndent 1
      (leftNodes (compareJson (Some (JObject ?L)) (Some (JObject ?R)) [] 0 None False None)) =
      [''b'', ''a''] \<and>
    keysAtIndent 1
      (rightNodes (compareJson (Some (JObject ?L)) (Some (JObject ?R)) [] 0 None False None)) =
      [''b'', ''a'']"
    unfolding ks keys by simp
  with wfL wfR same show ?thesis
    by blast
qed

text \<open>
  The lookup through the prototype chain at \<open>compare({}, {"toString": 1})\<close>: the left
  object owns no key, yet \<open>leftObj["toString"]\<close> is the inherited function, so the row of
  \<open>toString\<close> is \<open>MODIFIED\<close> on both sides and the left side shows the key.
\<close>

lemma inherited_function_is_compared:
  "map (\<lambda>n. (type n, key n, leftValue n, rightValue n))
     (leftNodes (compareJson (Some (JObject [])) (Some (JObject [(''toString'', JNumber 1)]))
        [] 0 None False None)) =
     [(UNCHANGED, None, Some (JString ''{''), Some (JString ''{'')),
      (MODIFIED, Some ''toString'', Some (JFunction ''toString''), None),
      (UNCHANGED, None, Some (JString ''}''), Some (JString ''}''))] \<and>
   map (\<lambda>n. (type n, key n, leftValue n, rightValue n))
     (rightNodes (compareJson (Some (JObject [])) (Some (JObject [(''toString'', JNumber 1)]))
        [] 0 None False None)) =
     [(UNCHANGED, None, Some (JString ''{''), Some (JString ''{'')),
      (MODIFIED, Some ''toString'', None, Some (JNumber 1)),
      (UNCHANGED, None, Some (JString ''}''), Some (JString ''}''))]"
  by code_simp

text \<open>
  At \<open>compare({}, {"__proto__": {"x": 1}})\<close>, where the right object owns the key
  \<open>__proto__\<close> as \<open>JSON.parse\<close> creates it, \<open>leftObj["__proto__"]\<close> is
  \<open>Object.prototype\<close>: an object without keys, compared with \<open>{"x": 1}\<close> entry by entry.
\<close>

lemma inherited_prototype_is_compared:
  "map (\<lambda>n. (type n, key n, leftValue n, rightValue n))
     (leftNodes (compareJson (Some (JObject []))
        (Some (JObject [(''__proto__'', JObject [(''x'', JNumber 1)])])) [] 0 None False None)) =
     [(UNCHANGED, None, Some (JString ''{''), Some (JString ''{'')),
      (UNCHANGED, Some ''__proto__'', Some (JString ''{''), Some (JString ''{'')),
      (SPACER, None, None, None),
      (UNCHANGED, None, Some (JString ''}''), Some (JString ''}'')),
      (UNCHANGED, None, Some (JString ''}''), Some (JString ''}''))] \<and>
   map (\<lambda>n. (type n, key n, leftValue n, rightValue n))
     (rightNodes (compareJson (Some (JObject []))
        (Some (JObject [(''__proto__'', JObject [(''x'', JNumber 1)])])) [] 0 None False None)) =
     [(UNCHANGED, None, Some (JString ''{''), Some (JString ''{'')),
      (UNCHANGED, Some ''__proto__'', Some (JString ''{''), Some (JString ''{'')),
      (ADDED, Some ''x'', None, Some (JNumber 1)),
      (UNCHANGED, None, Some (JString ''}''), Some (JString ''}'')),
      (UNCHANGED, None, Some (JString ''}''), Some (JString ''}''))]"
  by code_simp

text \<open>
  C5, positional array semantics: \<open>compare([1,2,3], [0,1,2,3])\<close> shows the items at
  indices 0, 1 and 2 as \<open>MODIFIED\<close> (1 against 0, 2 against 1, 3 against 2) and the item
  at index 3 as \<open>ADDED\<close> on the right, facing a spacer on the left. Each row is given as
  its classification, array index, left value and right value.
\<close>

theorem compareJson_arrays_positional:
  "map (\<lambda>n. (type n, arrayIndex n, leftValue n, rightValue n))
     (leftNodes (compareJson (Some (JArray [JNumber 1, JNumber 2, JNumber 3]))
        (Some (JArray [JNumber 0, JNumber 1, JNumber 2, JNumber 3])) [] 0 None False None)) =
     [(UNCHANGED, None, Some (JString ''[''), Some (JString ''['')),
      (MODIFIED, Some 0, Some (JNumber 1), None),
      (MODIFIED, Some 1, Some (JNumber 2), None),
      (MODIFIED, Some 2, Some (JNumber 3), None),
      (SPACER, None, None, None),
      (UNCHANGED, None, Some (JString '']''), Some (JString '']''))] \<and>
   map (\<lambda>n. (type n, arrayIndex n, leftValue n, rightValue n))
     (rightNodes (compareJson (Some (JArray [JNumber 1, JNumber 2, JNumber 3]))
        (Some (JArray [JNumber 0, JNumber 1, JNumber 2, JNumber 3])) [] 0 None False None)) =
     [(UNCHANGED, None, Some (JString ''[''), Some (JString ''['')),
      (MODIFIED, Some 0, None, Some (JNumber 0)),
      (MODIFIED, Some 1, None, Some (JNumber 1)),
      (MODIFIED, Some 2, None, Some (JNumber 2)),
      (ADDED, Some 3, None, Some (JNumber 3)),
      (UNCHANGED, None, Some (JString '']''), Some (JString '']''))]"
  by code_simp

text \<open>
  C6, structural marker values. As stated the claim fails: the closing bracket of two
  compared objects carries the value \<open>}\<close> on both sides (the source sets
  \<open>leftValue\<close> and \<open>rightValue\<close> of every shared closing node, and of the closing nodes of
  removed and added subtrees).
\<close>

theorem structural_markers_counterexample:
  "isClosingBracket (last (leftNodes (compareJson (Some (JObject [(''a'', JNumber 1)]))
      (Some (JObject [(''a'', JNumber 2)])) [] 0 None False None))) = Some True \<and>
   leftValue (last (leftNodes (compareJson (Some (JObject [(''a'', JNumber 1)]))
      (Some (JObject [(''a'', JNumber 2)])) [] 0 None False None))) = Some (JString ''}'') \<and>
   rightValue (last (leftNodes (compareJson (Some (JObject [(''a'', JNumber 1)]))
      (Some (JObject [(''a'', JNumber 2)])) [] 0 None False None))) = Some (JString ''}'')"
  by code_simp

text \<open>
  The opening and the closing node of a subtree materialized as \<open>UNCHANGED\<close> carry no
  value on either side, here at \<open>compare({}, {})\<close>: \<open>createNodesForValue\<close> sets the
  bracket values only for \<open>REMOVED\<close> and \<open>ADDED\<close>, while its branch for primitives also
  sets the value for \<open>MODIFIED\<close> and \<open>UNCHANGED\<close>. The statement below says nothing about
  the values of these nodes.
\<close>

lemma unchanged_subtree_brackets_unmarked:
  "map (\<lambda>n. (type n, isCollapsible n, isClosingBracket n, leftValue n, rightValue n))
     (leftNodes (compareJson (Some (JObject [])) (Some (JObject [])) [] 0 None False None)) =
     [(UNCHANGED, True, None, None, None), (UNCHANGED, False, Some True, None, None)]"
  by code_simp

text \<open>
  C6 as amended, for every output of \<open>compareJson\<close>. Opening nodes: an opening node
  classified \<open>REMOVED\<close> carries the marker \<open>{\<close> or \<open>[\<close> on the left, the side on which it
  is shown, and nothing on the right; one classified \<open>ADDED\<close> carries it on the right and
  nothing on the left; and when two objects, or two arrays, that are not deep-equal are
  compared, their shared opening node carries the marker on both sides. Closing brackets:
  every object or array a side opens is closed, after its rows, by a node of the same
  path and indent that is flagged \<open>isClosingBracket\<close> and has a \<open>bracketType\<close> (each side
  takes the empty stack of open brackets to the empty stack), and a flagged node is not
  collapsible. A closing bracket classified \<open>REMOVED\<close> carries the bracket \<open>}\<close> or \<open>]\<close>
  of its type on the left and nothing on the right, one classified \<open>ADDED\<close> carries it on
  the right and nothing on the left, and the shared closing node of two compared objects
  or arrays that are not deep-equal carries it on both sides.
\<close>

theorem compareJson_structural_markers:
  "(\<forall>n \<in> set (leftNodes (compareJson l r pth ind ky isItem idx)) \<union>
        set (rightNodes (compareJson l r pth ind ky isItem idx)). structuralNodeOk n) \<and>
   bracketStack [] (leftNodes (compareJson l r pth ind ky isItem idx)) = Some [] \<and>
   bracketStack [] (rightNodes (compareJson l r pth ind ky isItem idx)) = Some [] \<and>
   (\<not> isEqual a b \<and> getValueType a = TypeObject \<and> getValueType b = TypeObject \<longrightarrow>
     hd (leftNodes (compareJson (Some a) (Some b) pth ind ky isItem idx)) =
       openNode ''{'' pth ind ky isItem idx \<and>
     hd (rightNodes (compareJson (Some a) (Some b) pth ind ky isItem idx)) =
       openNode ''{'' pth ind ky isItem idx \<and>
     last (leftNodes (compareJson (Some a) (Some b) pth ind ky isItem idx)) =
       closeNode ''}'' BracketObject pth ind \<and>
     last (rightNodes (compareJson (Some a) (Some b) pth ind ky isItem idx)) =
       closeNode ''}'' BracketObject pth ind) \<and>
   (\<not> isEqual c d \<and> getValueType c = TypeArray \<and> getValueType d = TypeArray \<longrightarrow>
     hd (leftNodes (compareJson (Some c) (Some d) pth ind ky isItem idx)) =
       openNode ''['' pth ind ky isItem idx \<and>
     hd (rightNodes (compareJson (Some c) (Some d) pth ind ky isItem idx)) =
       openNode ''['' pth ind ky isItem idx \<and>
     last (leftNodes (compareJson (Some c) (Some d) pth ind ky isItem idx)) =
       closeNode '']'' BracketArray pth ind \<and>
     last (rightNodes (compareJson (Some c) (Some d) pth ind ky isItem idx)) =
       closeNode '']'' BracketArray pth ind)"
proof (intro conjI ballI impI)
  fix n
  assume "n \<in> set (leftNodes (compareJson l r pth ind ky isItem idx)) \<union>
    set (rightNodes (compareJson l r pth ind ky isItem idx))"
  then show "structuralNodeOk n"
    using structuralNodeOk_compareJson [of n l r pth ind ky isItem idx] by blast
qed (simp_all add: compareJson_shared_brackets bracketStack_compareJson)

text \<open>
  The comparison of \<open>{"a": [1], "b": [2]}\<close> with \<open>{"a": [1], "c": [2]}\<close>: every node of
  both sides is well marked, both sides are well bracketed, and the root's shared brackets
  carry their values on both sides. On the left the rows are the root's opening node, the
  unchanged array \<open>a\<close> (three rows), the removed array \<open>b\<close> (three rows), three spacers
  and the root's closing bracket.
\<close>

theorem compareJson_structural_markers_witness:
  "\<not> isEqual (JObject [(''a'', JArray [JNumber 1]), (''b'', JArray [JNumber 2])])
      (JObject [(''a'', JArray [JNumber 1]), (''c'', JArray [JNumber 2])]) \<and>
   getValueType (JObject [(''a'', JArray [JNumber 1]), (''b'', JArray [JNumber 2])]) = TypeObject \<and>
   getValueType (JObject [(''a'', JArray [JNumber 1]), (''c'', JArray [JNumber 2])]) = TypeObject \<and>
   list_all structuralNodeOk (leftNodes (compareJson
      (Some (JObject [(''a'', JArray [JNumber 1]), (''b'', JArray [JNumber 2])]))
      (Some (JObject [(''a'', JArray [JNumber 1]), (''c'', JArray [JNumber 2])]))
      [] 0 None False None)) \<and>
   bracketStack [] (leftNodes (compareJson
      (Some (JObject [(''a'', JArray [JNumber 1]), (''b'', JArray [JNumber 2])]))
      (Some (JObject [(''a'', JArray [JNumber 1]), (''c'', JArray [JNumber 2])]))
      [] 0 None False None)) = Some [] \<and>
   map (\<lambda>n. (isCollapsible n, isClosingBracket n, leftValue n))
     (leftNodes (compareJson
      (Some (JObject [(''a'', JArray [JNumber 1]), (''b'', JArray [JNumber 2])]))
      (Some (JObject [(''a'', JArray [JNumber 1]), (''c'', JArray [JNumber 2])]))
      [] 0 None False None)) =
     [(True, None, Some (JString ''{'')),
      (True, None, None), (False, None, Some (JNumber 1)), (False, Some True, None),
      (True, None, Some (JString ''['')), (False, None, Some (JNumber 2)),
      (False, Some True, Some (JString '']'')),
      (False, None, None), (False, None, None), (False, None, None),
      (False, Some True, Some (JString ''}''))] \<and>
   hd (leftNodes (compareJson
      (Some (JObject [(''a'', JArray [JNumber 1]), (''b'', JArray [JNumber 2])]))
      (Some (JObject [(''a'', JArray [JNumber 1]), (''c'', JArray [JNumber 2])]))
      [] 0 None False None)) = openNode ''{'' [] 0 None False None \<and>
   last (rightNodes (compareJson
      (Some (JObject [(''a'', JArray [JNumber 1]), (''b'', JArray [JNumber 2])]))
      (Some (JObject [(''a'', JArray [JNumber 1]), (''c'', JArray [JNumber 2])]))
      [] 0 None False None)) = closeNode ''}'' BracketObject [] 0"
proof -
  let ?L = "JObject [(''a'', JArray [JNumber 1]), (''b'', JArray [JNumber 2])]"
  let ?R = "JObject [(''a'', JArray [JNumber 1]), (''c'', JArray [JNumber 2])]"
  have ne: "\<not> isEqual ?L ?R"
    by simp
  have types: "getValueType ?L = TypeObject" "getValueType ?R = TypeObject"
    by simp_all
  have rows: "map (\<lambda>n. (isCollapsible n, isClosingBracket n, leftValue n))
     (leftNodes (compareJson (Some ?L) (Some ?R) [] 0 None False None)) =
     [(True, None, Some (JString ''{'')),
      (True, None, None), (False, None, Some (JNumber 1)), (False, Some True, None),
      (True, None, Some (JString ''['')), (False, None, Some (JNumber 2)),
      (False, Some True, Some (JString '']'')),
      (False, None, None), (False, None, None), (False, None, None),
      (False, Some True, Some (JString ''}''))]"
    by code_simp
  note markers = compareJson_structural_markers
    [of "Some ?L" "Some ?R" "[]" 0 None False None ?L ?R "JNull" "JNull"]
  from markers have "list_all structuralNodeOk (leftNodes (compareJson
      (Some ?L) (Some ?R) [] 0 None False None))"
    unfolding list_all_iff by blast
  moreover from markers have "bracketStack [] (leftNodes (compareJson
      (Some ?L) (Some ?R) [] 0 None False None)) = Some []"
    by blast
  moreover from markers ne types have "hd (leftNodes (compareJson
      (Some ?L) (Some ?R) [] 0 None False None)) = openNode ''{'' [] 0 None False None"
    "last (rightNodes (compareJson
      (Some ?L) (Some ?R) [] 0 None False None)) = closeNode ''}'' BracketObject [] 0"
    by blast+
  ultimately show ?thesis
    using ne types rows by blast
qed

text \<open>
  C7, one-sided materialization. As stated the claim fails for the type-mismatch case:
  a primitive materialized as \<open>MODIFIED\<close> carries its value on both sides
  (\<open>createNodesForValue\<close> sets \<open>leftValue\<close> and \<open>rightValue\<close> of a primitive for
  \<open>MODIFIED\<close> and for \<open>UNCHANGED\<close>). In \<open>compare({"a": 1}, [2])\<close> the left side is the
  object materialized as \<open>MODIFIED\<close>: the node of \<open>a\<close> has its right value set as well.
\<close>

theorem one_sided_counterexample:
  "map (\<lambda>n. (type n, leftValue n, rightValue n))
     (leftNodes (compareJson (Some (JObject [(''a'', JNumber 1)])) (Some (JArray [JNumber 2]))
        [] 0 None False None)) =
     [(MODIFIED, None, None), (MODIFIED, Some (JNumber 1), Some (JNumber 1)),
      (MODIFIED, None, None)]"
  by code_simp

text \<open>
  C7 as amended: every node \<open>createNodesForValue\<close> emits for a \<open>REMOVED\<close> subtree is
  \<open>REMOVED\<close>, carries on the left the value of its line (the primitive itself, or the
  bracket \<open>{\<close>, \<open>}\<close>, \<open>[\<close> or \<open>]\<close>) and nothing on the right; every node it emits for an
  \<open>ADDED\<close> subtree is \<open>ADDED\<close>, carries the value of its line on the right and nothing on
  the left. The leaves of a subtree materialized as \<open>MODIFIED\<close> (type mismatch) or
  \<open>UNCHANGED\<close> (deep equality) carry the primitive on both sides. The comparator uses
  the one-sided sequences for a value present on one side only, and faces them with as
  many spacers, whose two values are empty.
\<close>

theorem createNodesForValue_one_sided:
  "map (\<lambda>n. (type n, leftValue n, rightValue n))
     (createNodesForValue v pth ind ky REMOVED isItem idx) =
     map (\<lambda>x. (REMOVED, Some x, None)) (lineValues v) \<and>
   map (\<lambda>n. (type n, leftValue n, rightValue n))
     (createNodesForValue v pth ind ky ADDED isItem idx) =
     map (\<lambda>x. (ADDED, None, Some x)) (lineValues v) \<and>
   (diffType = MODIFIED \<or> diffType = UNCHANGED \<longrightarrow>
     map (\<lambda>n. (type n, leftValue n, rightValue n))
       (filter isLeafNode (createNodesForValue v pth ind ky diffType isItem idx)) =
       map (\<lambda>x. (diffType, Some x, Some x)) (leafValues v)) \<and>
   compareJson (Some v) None pth ind ky isItem idx =
     \<lparr>leftNodes = createNodesForValue v pth ind ky REMOVED isItem idx,
      rightNodes = replicate (sizeOf v) (createSpacer ind)\<rparr> \<and>
   compareJson None (Some v) pth ind ky isItem idx =
     \<lparr>leftNodes = replicate (sizeOf v) (createSpacer ind),
      rightNodes = createNodesForValue v pth ind ky ADDED isItem idx\<rparr> \<and>
   leftValue (createSpacer ind) = None \<and> rightValue (createSpacer ind) = None"
proof -
  have "map (\<lambda>n. (type n, leftValue n, rightValue n))
     (createNodesForValue v pth ind ky REMOVED isItem idx) =
     map (\<lambda>x. (REMOVED, Some x, None)) (lineValues v)"
    using values_createNodesForValue [of REMOVED v pth ind ky isItem idx] by simp
  moreover have "map (\<lambda>n. (type n, leftValue n, rightValue n))
     (createNodesForValue v pth ind ky ADDED isItem idx) =
     map (\<lambda>x. (ADDED, None, Some x)) (lineValues v)"
    using values_createNodesForValue [of ADDED v pth ind ky isItem idx] by simp
  moreover have "diffType = MODIFIED \<or> diffType = UNCHANGED \<longrightarrow>
     map (\<lambda>n. (type n, leftValue n, rightValue n))
       (filter isLeafNode (createNodesForValue v pth ind ky diffType isItem idx)) =
       map (\<lambda>x. (diffType, Some x, Some x)) (leafValues v)"
    using leaves_createNodesForValue [of diffType v pth ind ky isItem idx] by blast
  ultimately show ?thesis
    by (simp add: Let_def length_createNodesForValue map_replicate_const createSpacer_def)
qed

text \<open>
  The removed subtree \<open>{"a": [null]}\<close>: five nodes, each with the value of its line on
  the left and no right value. Materialized as \<open>MODIFIED\<close>, its one leaf carries \<open>null\<close>
  on both sides.
\<close>

theorem createNodesForValue_one_sided_witness:
  "map (\<lambda>n. (type n, leftValue n, rightValue n))
     (createNodesForValue (JObject [(''a'', JArray [JNull])]) [] 0 None REMOVED False None) =
     [(REMOVED, Some (JString ''{''), None),
      (REMOVED, Some (JString ''[''), None),
      (REMOVED, Some JNull, None),
      (REMOVED, Some (JString '']''), None),
      (REMOVED, Some (JString ''}''), None)] \<and>
   map (\<lambda>n. (type n, leftValue n, rightValue n))
     (filter isLeafNode
       (createNodesForValue (JObject [(''a'', JArray [JNull])]) [] 0 None MODIFIED False None)) =
     [(MODIFIED, Some JNull, Some JNull)]"
proof -
  note sides = createNodesForValue_one_sided
    [of "JObject [(''a'', JArray [JNull])]" "[]" 0 None False None MODIFIED]
  have lines: "lineValues (JObject [(''a'', JArray [JNull])]) =
      [JString ''{'', JString ''['', JNull, JString '']'', JString ''}'']"
    by simp
  have leaves: "leafValues (JObject [(''a'', JArray [JNull])]) = [JNull]"
    by simp
  from sides have "map (\<lambda>n. (type n, leftValue n, rightValue n))
     (createNodesForValue (JObject [(''a'', JArray [JNull])]) [] 0 None REMOVED False None) =
     map (\<lambda>x. (REMOVED, Some x, None)) (lineValues (JObject [(''a'', JArray [JNull])]))"
    by (rule conjunct1)
  moreover from sides have "map (\<lambda>n. (type n, leftValue n, rightValue n))
     (filter isLeafNode
       (createNodesForValue (JObject [(''a'', JArray [JNull])]) [] 0 None MODIFIED False None)) =
     map (\<lambda>x. (MODIFIED, Some x, Some x)) (leafValues (JObject [(''a'', JArray [JNull])]))"
    by blast
  ultimately show ?thesis
    unfolding lines leaves by simp
qed

text \<open>
  C8, collapse filter: for every node sequence and every collection of collapsed paths,
  \<open>filterNodes\<close> keeps the nodes in their order and drops exactly the nodes whose path
  extends a collapsed path at a \<open>.\<close> or \<open>[\<close> boundary and the closing brackets whose own
  path is collapsed; every other node, the opening node of a collapsed path among them,
  is kept.
\<close>

theorem filterNodes_drops_exactly:
  "filterNodes collapsedPaths nodes = filter (\<lambda>n. \<not> isDropped collapsedPaths n) nodes"
  by (simp add: filterNodes_def foldl_filterStep)

text \<open>
  Collapsing \<open>a\<close> in \<open>compare({"a": [1], "b": 2}, {"a": [1], "b": 3})\<close> keeps the rows of the
  root, the opening row of \<open>a\<close>, the row of \<open>b\<close> and the root's closing bracket.
\<close>

theorem filterNodes_drops_exactly_witness:
  "map (\<lambda>n. (path n, isClosingBracket n))
     (filterNodes [''a''] (leftNodes (compareJson
        (Some (JObject [(''a'', JArray [JNumber 1]), (''b'', JNumber 2)]))
        (Some (JObject [(''a'', JArray [JNumber 1]), (''b'', JNumber 3)]))
        [] 0 None False None))) =
     [([], None), (''a'', None), (''b'', None), ([], Some True)]"
proof -
  have "map (\<lambda>n. (path n, isClosingBracket n))
     (filter (\<lambda>n. \<not> isDropped [''a''] n) (leftNodes (compareJson
        (Some (JObject [(''a'', JArray [JNumber 1]), (''b'', JNumber 2)]))
        (Some (JObject [(''a'', JArray [JNumber 1]), (''b'', JNumber 3)]))
        [] 0 None False None))) =
     [([], None), (''a'', None), (''b'', None), ([], Some True)]"
    by code_simp
  then show ?thesis
    by (simp only: filterNodes_drops_exactly)
qed

text \<open>
  C9, totality. The recursion of \<open>compareJson\<close> is well-founded (lemma
  \<open>compareJson_terminates\<close>), but the source hands every node sequence it has built to
  \<open>push\<close> as an argument list (\<open>leftNodes.push(...nodes)\<close>), and a JavaScript engine
  bounds the number of arguments of a call. When an array of 150000 numbers is compared
  with an equal array, the deep-equal case materializes 150002 nodes and passes them all
  to one call of \<open>push\<close>, which raises a \<open>RangeError\<close> where this model returns the
  sequence; the spacers of the one-sided cases, pushed one at a time, have no such bound.
\<close>

theorem compareJson_spread_argument_count:
  "length (leftNodes (compareJson (Some (JArray (replicate 150000 (JNumber 0))))
     (Some (JArray (replicate 150000 (JNumber 0)))) [] 0 None False None)) = 150002"
  by (rule trans [OF compareJson_flat_array]) simp

text \<open>
  C10: when both inputs are absent, \<open>compareJson\<close> returns two empty node sequences.
\<close>

theorem compareJson_both_absent:
  "compareJson None None pth ind ky isItem idx = \<lparr>leftNodes = [], rightNodes = []\<rparr>"
  by simp

end
